theory Spec2Isabelle
  imports Main "HOL-Library.Word"
begin

unbundle bit_operations_syntax

section \<open>Data model of RuntimeBitset.hpp\<close>

text \<open>
  A block is a \<open>std::size_t\<close>; the header fixes \<open>BLOCK_SIZE = sizeof(std::size_t) * 8\<close>,
  which is 64 on the LP64 targets the library is built for. Sizes, positions and block
  indices are \<open>std::size_t\<close> values as well; they are modelled as \<open>nat\<close>, since no
  array of \<open>2 ^ 58\<close> blocks can be allocated and so no index computation wraps.
\<close>

type_synonym block = "64 word"

abbreviation BLOCK_SIZE :: nat where
  "BLOCK_SIZE \<equiv> 64"

definition ALL_BITS_ONE :: block where
  "ALL_BITS_ONE = NOT 0"

text \<open>
  The four exception classes of namespace \<open>RunBitsetException\<close>. \<open>UndefinedShift\<close> is
  not an exception of the library: it marks the evaluation of a native \<open>>>\<close> or
  \<open><<\<close> on a \<open>std::size_t\<close> whose right operand is not below the width of the type,
  which C++ leaves undefined.
\<close>

datatype error = InvalidSize | OutOfRange | SizeDismatch | UnknownChar | UndefinedShift

text \<open>
  The attributes of the class. An owned array is a list; the null pointer is the empty
  list (\<open>build\<close> never allocates an array of length 0).
\<close>

record RuntimeBitset =
  m_bits :: "block list"
  m_mask :: "block list"
  m_size :: nat
  m_blocks :: nat

text \<open>
  \<open>new std::size_t[n]\<close> default-initialises its elements: their values are
  indeterminate. The content a fresh array happens to hold is a parameter of every
  operation that allocates: the first component for \<open>m_bits\<close>, the second for
  \<open>m_mask\<close>, each giving the value found in cell \<open>i\<close>.
\<close>

type_synonym fresh = "(nat \<Rightarrow> block) \<times> (nat \<Rightarrow> block)"

definition zeroed :: fresh where
  "zeroed = ((\<lambda>i. 0), (\<lambda>i. 0))"

text \<open>An object before its constructor body runs: both pointers are \<open>nullptr\<close> by
  their default member initialisers; the two scalars are overwritten by \<open>destroy\<close>
  before they are read.\<close>

definition unconstructed :: RuntimeBitset where
  "unconstructed = \<lparr>m_bits = [], m_mask = [], m_size = 0, m_blocks = 0\<rparr>"

subsection \<open>Storage and lifecycle\<close>

definition destroy :: "RuntimeBitset \<Rightarrow> RuntimeBitset" where
  "destroy v = v\<lparr>m_bits := [], m_mask := [], m_size := 0, m_blocks := 0\<rparr>"

text \<open>\<open>getNumberBlocks\<close> counts the steps of \<open>for (i = 0; i < t_size; i += BLOCK_SIZE)\<close>.
  Its \<open>assert (t_size != 0)\<close> holds at its only call, in \<open>build\<close> after the size check.\<close>

function getNumberBlocks_loop :: "nat \<Rightarrow> nat \<Rightarrow> nat \<Rightarrow> nat" where
  "getNumberBlocks_loop t_size i numberOfBlocks =
     (if i < t_size then getNumberBlocks_loop t_size (i + BLOCK_SIZE) (numberOfBlocks + 1)
      else numberOfBlocks)"
  by pat_completeness auto
termination
  by (relation "measure (\<lambda>(t_size, i, n). t_size - i)") auto

declare getNumberBlocks_loop.simps [simp del]

definition getNumberBlocks :: "nat \<Rightarrow> nat" where
  "getNumberBlocks t_size = getNumberBlocks_loop t_size 0 0"

definition buildBlocks :: "fresh \<Rightarrow> RuntimeBitset \<Rightarrow> RuntimeBitset" where
  "buildBlocks junk v =
     v\<lparr>m_bits := map (fst junk) [0..<m_blocks v], m_mask := map (snd junk) [0..<m_blocks v]\<rparr>"

text \<open>\<open>lastMask >>= (BLOCK_SIZE - t_number_bits)\<close>. \<open>buildMask\<close> is the only caller,
  and passes a number from 1 to 64 (lemma \<open>lastMask_range\<close>), so the count is below 64.\<close>

definition getLastMask :: "nat \<Rightarrow> block" where
  "getLastMask t_number_bits = drop_bit (BLOCK_SIZE - t_number_bits) ALL_BITS_ONE"

function buildMask_loop :: "nat \<Rightarrow> RuntimeBitset \<Rightarrow> RuntimeBitset" where
  "buildMask_loop i v =
     (if i < m_blocks v then buildMask_loop (i + 1) (v\<lparr>m_mask := (m_mask v)[i := ALL_BITS_ONE]\<rparr>)
      else v)"
  by pat_completeness auto
termination
  by (relation "measure (\<lambda>(i, v). m_blocks v - i)") auto

declare buildMask_loop.simps [simp del]

definition buildMask :: "RuntimeBitset \<Rightarrow> RuntimeBitset" where
  "buildMask v =
     (let v1 = buildMask_loop 0 v;
          lastMask = m_size v1 - ((m_blocks v1 - 1) * BLOCK_SIZE)
      in v1\<lparr>m_mask := (m_mask v1)[m_blocks v1 - 1 := getLastMask lastMask]\<rparr>)"

text \<open>\<open>build\<close> throws before it touches the object; \<open>Inl\<close> is that throw.\<close>

definition build :: "nat \<Rightarrow> fresh \<Rightarrow> RuntimeBitset \<Rightarrow> error + RuntimeBitset" where
  "build t_size junk v =
     (if t_size = 0 then Inl InvalidSize
      else Inr (buildMask (buildBlocks junk
                  ((destroy v)\<lparr>m_size := t_size, m_blocks := getNumberBlocks t_size\<rparr>))))"

function clean_loop :: "nat \<Rightarrow> RuntimeBitset \<Rightarrow> RuntimeBitset" where
  "clean_loop i v =
     (if i < m_blocks v then clean_loop (i + 1) (v\<lparr>m_bits := (m_bits v)[i := 0]\<rparr>) else v)"
  by pat_completeness auto
termination
  by (relation "measure (\<lambda>(i, v). m_blocks v - i)") auto

declare clean_loop.simps [simp del]

definition clean :: "RuntimeBitset \<Rightarrow> RuntimeBitset" where
  "clean v = clean_loop 0 v"

text \<open>\<open>RuntimeBitset(t_size, t_num)\<close>: \<open>build(t_size); m_bits[0] = t_num;\<close>\<close>

definition RuntimeBitset_size_num :: "nat \<Rightarrow> block \<Rightarrow> fresh \<Rightarrow> error + RuntimeBitset" where
  "RuntimeBitset_size_num t_size t_num junk =
     (case build t_size junk unconstructed of
        Inl e \<Rightarrow> Inl e
      | Inr v \<Rightarrow> Inr (v\<lparr>m_bits := (m_bits v)[0 := t_num]\<rparr>))"

text \<open>\<open>RuntimeBitset(t_size)\<close>: \<open>build(t_size); clean();\<close>\<close>

definition RuntimeBitset_size :: "nat \<Rightarrow> fresh \<Rightarrow> error + RuntimeBitset" where
  "RuntimeBitset_size t_size junk =
     (case build t_size junk unconstructed of
        Inl e \<Rightarrow> Inl e
      | Inr v \<Rightarrow> Inr (clean v))"

subsection \<open>Addressing and single-bit operations\<close>

text \<open>\<open>auxMask << t_position\<close>; \<open>getPosition\<close> passes a position below 64.\<close>

definition getMaskPosition :: "nat \<Rightarrow> block" where
  "getMaskPosition t_position = push_bit t_position 1"

function getPosition_loop :: "nat \<Rightarrow> nat \<Rightarrow> nat \<times> block" where
  "getPosition_loop t_position blockPosition =
     (if t_position \<ge> BLOCK_SIZE then getPosition_loop (t_position - BLOCK_SIZE) (blockPosition + 1)
      else (blockPosition, getMaskPosition t_position))"
  by pat_completeness auto
termination
  by (relation "measure (\<lambda>(p, b). p)") auto

declare getPosition_loop.simps [simp del]

definition getPosition :: "RuntimeBitset \<Rightarrow> nat \<Rightarrow> error + nat \<times> block" where
  "getPosition v t_position =
     (if t_position \<ge> m_size v then Inl OutOfRange else Inr (getPosition_loop t_position 0))"

definition getValueInPosition :: "RuntimeBitset \<Rightarrow> nat \<Rightarrow> error + bool" where
  "getValueInPosition v t_position =
     (case getPosition v t_position of
        Inl e \<Rightarrow> Inl e
      | Inr (blockPosition, positionMask) \<Rightarrow>
          (let auxBlock = m_bits v ! blockPosition AND positionMask
           in if (auxBlock OR 0) = 0 then Inr False else Inr True))"

definition test :: "RuntimeBitset \<Rightarrow> nat \<Rightarrow> error + bool" where
  "test v t_position = getValueInPosition v t_position"

text \<open>\<open>set(t_position)\<close>: \<open>m_bits[blockPosition] |= positionMask\<close>.\<close>

definition set_pos :: "RuntimeBitset \<Rightarrow> nat \<Rightarrow> error + RuntimeBitset" where
  "set_pos v t_position =
     (case getPosition v t_position of
        Inl e \<Rightarrow> Inl e
      | Inr (blockPosition, positionMask) \<Rightarrow>
          Inr (v\<lparr>m_bits := (m_bits v)[blockPosition := m_bits v ! blockPosition OR positionMask]\<rparr>))"

text \<open>\<open>set()\<close>: every block becomes \<open>ALL_BITS_ONE\<close>.\<close>

function set_loop :: "nat \<Rightarrow> RuntimeBitset \<Rightarrow> RuntimeBitset" where
  "set_loop i v =
     (if i < m_blocks v then set_loop (i + 1) (v\<lparr>m_bits := (m_bits v)[i := ALL_BITS_ONE]\<rparr>) else v)"
  by pat_completeness auto
termination
  by (relation "measure (\<lambda>(i, v). m_blocks v - i)") auto

declare set_loop.simps [simp del]

definition set_all :: "RuntimeBitset \<Rightarrow> RuntimeBitset" where
  "set_all v = set_loop 0 v"

subsection \<open>Whole-vector predicates and counting\<close>

function all_loop :: "RuntimeBitset \<Rightarrow> nat \<Rightarrow> bool" where
  "all_loop v i =
     (if i < m_blocks v
      then (if (m_bits v ! i AND m_mask v ! i) \<noteq> m_mask v ! i then False else all_loop v (i + 1))
      else True)"
  by pat_completeness auto
termination
  by (relation "measure (\<lambda>(v, i). m_blocks v - i)") auto

declare all_loop.simps [simp del]

definition all_bits :: "RuntimeBitset \<Rightarrow> bool" where
  "all_bits v = all_loop v 0"

function any_loop :: "RuntimeBitset \<Rightarrow> nat \<Rightarrow> bool" where
  "any_loop v i =
     (if i < m_blocks v
      then (if (m_bits v ! i AND m_mask v ! i) \<noteq> 0 then True else any_loop v (i + 1))
      else False)"
  by pat_completeness auto
termination
  by (relation "measure (\<lambda>(v, i). m_blocks v - i)") auto

declare any_loop.simps [simp del]

definition any_bits :: "RuntimeBitset \<Rightarrow> bool" where
  "any_bits v = any_loop v 0"

function none_loop :: "RuntimeBitset \<Rightarrow> nat \<Rightarrow> bool" where
  "none_loop v i =
     (if i < m_blocks v
      then (if (m_bits v ! i AND m_mask v ! i) \<noteq> 0 then False else none_loop v (i + 1))
      else True)"
  by pat_completeness auto
termination
  by (relation "measure (\<lambda>(v, i). m_blocks v - i)") auto

declare none_loop.simps [simp del]

definition none :: "RuntimeBitset \<Rightarrow> bool" where
  "none v = none_loop v 0"

text \<open>The inner loop of \<open>count\<close>; the first argument is the number of iterations left
  (\<open>BLOCK_SIZE - j\<close>).\<close>

fun count_block :: "nat \<Rightarrow> block \<Rightarrow> nat \<Rightarrow> nat" where
  "count_block 0 block numberOfActive = numberOfActive"
| "count_block (Suc k) block numberOfActive =
     count_block k (drop_bit 1 block) (if block mod 2 \<noteq> 0 then numberOfActive + 1 else numberOfActive)"

function count_loop :: "RuntimeBitset \<Rightarrow> nat \<Rightarrow> nat \<Rightarrow> nat" where
  "count_loop v i numberOfActive =
     (if i < m_blocks v
      then count_loop v (i + 1) (count_block BLOCK_SIZE (m_bits v ! i AND m_mask v ! i) numberOfActive)
      else numberOfActive)"
  by pat_completeness auto
termination
  by (relation "measure (\<lambda>(v, i, n). m_blocks v - i)") auto

declare count_loop.simps [simp del]

definition count :: "RuntimeBitset \<Rightarrow> nat" where
  "count v = count_loop v 0 0"

subsection \<open>Conversion to text\<close>

text \<open>The inner loop of \<open>to_string\<close>, writing to \<open>buffer\<close>; the first argument is the
  number of iterations left.\<close>

fun to_string_block :: "nat \<Rightarrow> block \<Rightarrow> block \<Rightarrow> string \<Rightarrow> string" where
  "to_string_block 0 block msk buffer = buffer"
| "to_string_block (Suc k) block msk buffer =
     to_string_block k (drop_bit 1 block) (drop_bit 1 msk)
       (if msk mod 2 \<noteq> 0
        then (if block mod 2 \<noteq> 0 then buffer @ [CHR ''1''] else buffer @ [CHR ''0''])
        else buffer)"

text \<open>The outer loop runs \<open>i\<close> from \<open>m_blocks - 1\<close> down to 0; the argument is \<open>i + 1\<close>.\<close>

fun to_string_loop :: "RuntimeBitset \<Rightarrow> nat \<Rightarrow> string \<Rightarrow> string" where
  "to_string_loop v 0 toReturn = toReturn"
| "to_string_loop v (Suc i) toReturn =
     to_string_loop v i
       (toReturn @ rev (to_string_block BLOCK_SIZE (m_bits v ! i AND m_mask v ! i) (m_mask v ! i) []))"

definition to_string :: "RuntimeBitset \<Rightarrow> string" where
  "to_string v = to_string_loop v (m_blocks v) []"

subsection \<open>Construction from text\<close>

text \<open>\<open>buildFromString\<close>: \<open>destroy(); build(t_string.size());\<close> and then one \<open>set\<close>
  for every character \<open>'1'\<close>. No block is cleared on this path. The character at
  index \<open>i\<close> sets position \<open>sizeAux - i\<close>; any character other than \<open>'0'\<close> and \<open>'1'\<close>
  throws.\<close>

function buildFromString_loop :: "string \<Rightarrow> nat \<Rightarrow> nat \<Rightarrow> RuntimeBitset \<Rightarrow> error + RuntimeBitset" where
  "buildFromString_loop t_string sizeAux i v =
     (if i < length t_string
      then (if t_string ! i = CHR ''1''
            then (case set_pos v (sizeAux - i) of
                    Inl e \<Rightarrow> Inl e
                  | Inr v' \<Rightarrow> buildFromString_loop t_string sizeAux (i + 1) v')
            else if t_string ! i = CHR ''0''
            then buildFromString_loop t_string sizeAux (i + 1) v
            else Inl UnknownChar)
      else Inr v)"
  by pat_completeness auto
termination
  by (relation "measure (\<lambda>(t, a, i, v). length t - i)") auto

declare buildFromString_loop.simps [simp del]

definition buildFromString :: "string \<Rightarrow> fresh \<Rightarrow> RuntimeBitset \<Rightarrow> error + RuntimeBitset" where
  "buildFromString t_string junk v =
     (case build (length t_string) junk (destroy v) of
        Inl e \<Rightarrow> Inl e
      | Inr b \<Rightarrow> buildFromString_loop t_string (length t_string - 1) 0 b)"

text \<open>\<open>RuntimeBitset(const std::string&)\<close>\<close>

definition RuntimeBitset_string :: "string \<Rightarrow> fresh \<Rightarrow> error + RuntimeBitset" where
  "RuntimeBitset_string t_string junk = buildFromString t_string junk unconstructed"

subsection \<open>Copy and move\<close>

text \<open>
  \<open>copy\<close> and the copy assignment take two references that may name the same object, so
  they run on a store of objects indexed by address. An exception leaves the store as
  the statements before the throw made it: the result pairs the exception, if any, with
  the store.
\<close>

type_synonym store = "nat \<Rightarrow> RuntimeBitset"

function copy_loop :: "nat \<Rightarrow> nat \<Rightarrow> nat \<Rightarrow> store \<Rightarrow> store" where
  "copy_loop t_copy t_toCopy i s =
     (if i < m_blocks (s t_copy)
      then copy_loop t_copy t_toCopy (i + 1)
             (s(t_copy := (s t_copy)\<lparr>m_bits := (m_bits (s t_copy))[i := m_bits (s t_toCopy) ! i]\<rparr>))
      else s)"
  by pat_completeness auto
termination
  by (relation "measure (\<lambda>(a, b, i, s). m_blocks (s a) - i)") auto

declare copy_loop.simps [simp del]

definition copy :: "nat \<Rightarrow> nat \<Rightarrow> fresh \<Rightarrow> store \<Rightarrow> error option \<times> store" where
  "copy t_copy t_toCopy junk s =
     (let s1 = s(t_copy := destroy (s t_copy))
      in case build (m_size (s1 t_toCopy)) junk (s1 t_copy) of
           Inl e \<Rightarrow> (Some e, s1)
         | Inr c \<Rightarrow> (None, copy_loop t_copy t_toCopy 0 (s1(t_copy := c))))"

text \<open>Copy assignment: \<open>copy(*this, t_RuntimeBitset); return *this;\<close>\<close>

definition copy_assign :: "nat \<Rightarrow> nat \<Rightarrow> fresh \<Rightarrow> store \<Rightarrow> error option \<times> store" where
  "copy_assign this other junk s = copy this other junk s"

text \<open>Copy constructor: the new object (address 0) is distinct from its source
  (address 1).\<close>

definition copy_construct :: "RuntimeBitset \<Rightarrow> fresh \<Rightarrow> error + RuntimeBitset" where
  "copy_construct src junk =
     (case copy 0 1 junk ((\<lambda>a. src)(0 := unconstructed)) of
        (Some e, s) \<Rightarrow> Inl e
      | (None, s) \<Rightarrow> Inr (s 0))"

text \<open>\<open>move\<close> is only modelled for a source that is a temporary, hence distinct from the
  target. It returns the exception of the closing \<open>t_toMove.build(1)\<close> if any, the
  target and the source.\<close>

definition move :: "RuntimeBitset \<Rightarrow> RuntimeBitset \<Rightarrow> fresh \<Rightarrow> error option \<times> RuntimeBitset \<times> RuntimeBitset" where
  "move t_move t_toMove junk =
     (let m0 = destroy t_move;
          m1 = m0\<lparr>m_bits := m_bits t_toMove, m_mask := m_mask t_toMove,
                  m_size := m_size t_toMove, m_blocks := m_blocks t_toMove\<rparr>;
          t1 = t_toMove\<lparr>m_bits := [], m_mask := [], m_size := 0, m_blocks := 0\<rparr>
      in case build 1 junk t1 of
           Inl e \<Rightarrow> (Some e, m1, t1)
         | Inr t2 \<Rightarrow> (None, m1, t2))"

subsection \<open>Binary logic operators\<close>

text \<open>The three friend operators share one loop shape,
  \<open>aux.m_bits[i] = t_1.m_bits[i] op t_2.m_bits[i]\<close>; \<open>f\<close> is the native word operation.
  Both operands are const references: the operators only read them.\<close>

function blockwise_loop :: "(block \<Rightarrow> block \<Rightarrow> block) \<Rightarrow> RuntimeBitset \<Rightarrow> RuntimeBitset \<Rightarrow> nat \<Rightarrow> RuntimeBitset \<Rightarrow> RuntimeBitset" where
  "blockwise_loop f t_1 t_2 i aux =
     (if i < m_blocks aux
      then blockwise_loop f t_1 t_2 (i + 1)
             (aux\<lparr>m_bits := (m_bits aux)[i := f (m_bits t_1 ! i) (m_bits t_2 ! i)]\<rparr>)
      else aux)"
  by pat_completeness auto
termination
  by (relation "measure (\<lambda>(f, a, b, i, aux). m_blocks aux - i)") auto

declare blockwise_loop.simps [simp del]

definition operator_and :: "RuntimeBitset \<Rightarrow> RuntimeBitset \<Rightarrow> fresh \<Rightarrow> error + RuntimeBitset" where
  "operator_and t_1 t_2 junk =
     (if m_size t_1 \<noteq> m_size t_2 then Inl SizeDismatch
      else case RuntimeBitset_size (m_size t_1) junk of
             Inl e \<Rightarrow> Inl e
           | Inr aux \<Rightarrow> Inr (blockwise_loop (AND) t_1 t_2 0 aux))"

definition operator_or :: "RuntimeBitset \<Rightarrow> RuntimeBitset \<Rightarrow> fresh \<Rightarrow> error + RuntimeBitset" where
  "operator_or t_1 t_2 junk =
     (if m_size t_1 \<noteq> m_size t_2 then Inl SizeDismatch
      else case RuntimeBitset_size (m_size t_1) junk of
             Inl e \<Rightarrow> Inl e
           | Inr aux \<Rightarrow> Inr (blockwise_loop (OR) t_1 t_2 0 aux))"

definition operator_xor :: "RuntimeBitset \<Rightarrow> RuntimeBitset \<Rightarrow> fresh \<Rightarrow> error + RuntimeBitset" where
  "operator_xor t_1 t_2 junk =
     (if m_size t_1 \<noteq> m_size t_2 then Inl SizeDismatch
      else case RuntimeBitset_size (m_size t_1) junk of
             Inl e \<Rightarrow> Inl e
           | Inr aux \<Rightarrow> Inr (blockwise_loop (XOR) t_1 t_2 0 aux))"

text \<open>
  The compound forms are \<open>*this = *this op t_other; return *this;\<close>. The right-hand
  side is a temporary, so the assignment is the move assignment, \<open>move(*this, temporary)\<close>.
  The receiver and the argument are named by address.
\<close>

definition assign_result :: "nat \<Rightarrow> error + RuntimeBitset \<Rightarrow> fresh \<Rightarrow> store \<Rightarrow> error option \<times> store" where
  "assign_result this r junk s =
     (case r of
        Inl e \<Rightarrow> (Some e, s)
      | Inr tmp \<Rightarrow> (case move (s this) tmp junk of (e, m, t) \<Rightarrow> (e, s(this := m))))"

definition operator_and_assign :: "nat \<Rightarrow> nat \<Rightarrow> fresh \<Rightarrow> store \<Rightarrow> error option \<times> store" where
  "operator_and_assign this t_other junk s =
     assign_result this (operator_and (s this) (s t_other) junk) junk s"

definition operator_or_assign :: "nat \<Rightarrow> nat \<Rightarrow> fresh \<Rightarrow> store \<Rightarrow> error option \<times> store" where
  "operator_or_assign this t_other junk s =
     assign_result this (operator_or (s this) (s t_other) junk) junk s"

definition operator_xor_assign :: "nat \<Rightarrow> nat \<Rightarrow> fresh \<Rightarrow> store \<Rightarrow> error option \<times> store" where
  "operator_xor_assign this t_other junk s =
     assign_result this (operator_xor (s this) (s t_other) junk) junk s"

subsection \<open>Shifting\<close>

text \<open>
  The native shifts of a \<open>std::size_t\<close>. C++ defines them only for a right operand
  below the width of the type; any other count is \<open>UndefinedShift\<close>.
\<close>

definition shr :: "block \<Rightarrow> nat \<Rightarrow> error + block" where
  "shr w n = (if n < BLOCK_SIZE then Inr (drop_bit n w) else Inl UndefinedShift)"

definition shl :: "block \<Rightarrow> nat \<Rightarrow> error + block" where
  "shl w n = (if n < BLOCK_SIZE then Inr (push_bit n w) else Inl UndefinedShift)"

text \<open>\<open>shiftBlocksLeft\<close>: \<open>i\<close> runs from \<open>m_blocks - 1\<close> down to 0; the loop argument is
  \<open>i + 1\<close>.\<close>

fun shiftBlocksLeft_loop :: "nat \<Rightarrow> nat \<Rightarrow> RuntimeBitset \<Rightarrow> RuntimeBitset" where
  "shiftBlocksLeft_loop t_pos 0 v = v"
| "shiftBlocksLeft_loop t_pos (Suc i) v =
     (let newPos = i + t_pos;
          v1 = (if newPos < m_blocks v
                then v\<lparr>m_bits := (m_bits v)[newPos := m_bits v ! i AND m_mask v ! i]\<rparr>
                else v)
      in shiftBlocksLeft_loop t_pos i (v1\<lparr>m_bits := (m_bits v1)[i := 0]\<rparr>))"

definition shiftBlocksLeft :: "nat \<Rightarrow> RuntimeBitset \<Rightarrow> RuntimeBitset" where
  "shiftBlocksLeft t_pos v = shiftBlocksLeft_loop t_pos (m_blocks v) v"

text \<open>\<open>shiftBlocksRight\<close>: \<open>newPos = i - t_pos\<close> is a \<open>long long\<close>, negative when
  \<open>i < t_pos\<close>.\<close>

function shiftBlocksRight_loop :: "nat \<Rightarrow> nat \<Rightarrow> RuntimeBitset \<Rightarrow> RuntimeBitset" where
  "shiftBlocksRight_loop t_pos i v =
     (if i < m_blocks v
      then (let newPos = int i - int t_pos;
                v1 = (if newPos \<ge> 0
                      then v\<lparr>m_bits := (m_bits v)[nat newPos := m_bits v ! i AND m_mask v ! i]\<rparr>
                      else v)
            in shiftBlocksRight_loop t_pos (i + 1) (v1\<lparr>m_bits := (m_bits v1)[i := 0]\<rparr>))
      else v)"
  by pat_completeness auto
termination
  by (relation "measure (\<lambda>(p, i, v). m_blocks v - i)") auto

declare shiftBlocksRight_loop.simps [simp del]

definition shiftBlocksRight :: "nat \<Rightarrow> RuntimeBitset \<Rightarrow> RuntimeBitset" where
  "shiftBlocksRight t_pos v = shiftBlocksRight_loop t_pos 0 v"

text \<open>The \<open>while (t_pos >= BLOCK_SIZE)\<close> loop that opens both \<open>bitwiseLeft\<close> and
  \<open>bitwiseRight\<close>; it returns \<open>blockWise\<close> and the reduced \<open>t_pos\<close>.\<close>

function blockWise_loop :: "nat \<Rightarrow> nat \<Rightarrow> nat \<times> nat" where
  "blockWise_loop blockWise t_pos =
     (if t_pos \<ge> BLOCK_SIZE then blockWise_loop (blockWise + 1) (t_pos - BLOCK_SIZE)
      else (blockWise, t_pos))"
  by pat_completeness auto
termination
  by (relation "measure (\<lambda>(b, p). p)") auto

declare blockWise_loop.simps [simp del]

text \<open>The \<open>for\<close> loop of \<open>bitwiseLeft\<close>, \<open>i\<close> from \<open>m_blocks - 1\<close> down to 0 (the loop
  argument is \<open>i + 1\<close>). Both shifts are evaluated in every iteration, whatever
  \<open>t_pos\<close> is.\<close>

fun bitwiseLeft_loop :: "nat \<Rightarrow> nat \<Rightarrow> RuntimeBitset \<Rightarrow> error + RuntimeBitset" where
  "bitwiseLeft_loop t_pos 0 v = Inr v"
| "bitwiseLeft_loop t_pos (Suc i) v =
     (case shr (m_bits v ! i AND m_mask v ! i) (BLOCK_SIZE - t_pos) of
        Inl e \<Rightarrow> Inl e
      | Inr remain \<Rightarrow>
          (case shl (m_bits v ! i AND m_mask v ! i) t_pos of
             Inl e \<Rightarrow> Inl e
           | Inr shifted \<Rightarrow>
               (let v1 = v\<lparr>m_bits := (m_bits v)[i := shifted]\<rparr>;
                    v2 = (if i + 1 < m_blocks v1
                          then v1\<lparr>m_bits := (m_bits v1)[i + 1 := m_bits v1 ! (i + 1) OR remain]\<rparr>
                          else v1)
                in bitwiseLeft_loop t_pos i v2)))"

definition bitwiseLeft :: "nat \<Rightarrow> RuntimeBitset \<Rightarrow> error + RuntimeBitset" where
  "bitwiseLeft t_pos v =
     (case blockWise_loop 0 t_pos of
        (blockWise, t_pos') \<Rightarrow>
          (let v1 = (if blockWise > 0 then shiftBlocksLeft blockWise v else v)
           in bitwiseLeft_loop t_pos' (m_blocks v1) v1))"

function bitwiseRight_loop :: "nat \<Rightarrow> nat \<Rightarrow> RuntimeBitset \<Rightarrow> error + RuntimeBitset" where
  "bitwiseRight_loop t_pos i v =
     (if i < m_blocks v
      then (case shl (m_bits v ! i AND m_mask v ! i) (BLOCK_SIZE - t_pos) of
              Inl e \<Rightarrow> Inl e
            | Inr remain \<Rightarrow>
                (case shr (m_bits v ! i AND m_mask v ! i) t_pos of
                   Inl e \<Rightarrow> Inl e
                 | Inr shifted \<Rightarrow>
                     (let v1 = v\<lparr>m_bits := (m_bits v)[i := shifted]\<rparr>;
                          v2 = (if int i - 1 \<ge> 0
                                then v1\<lparr>m_bits := (m_bits v1)[i - 1 := m_bits v1 ! (i - 1) OR remain]\<rparr>
                                else v1)
                      in bitwiseRight_loop t_pos (i + 1) v2)))
      else Inr v)"
  by pat_completeness auto
termination
  by (relation "measure (\<lambda>(p, i, v). m_blocks v - i)") auto

declare bitwiseRight_loop.simps [simp del]

definition bitwiseRight :: "nat \<Rightarrow> RuntimeBitset \<Rightarrow> error + RuntimeBitset" where
  "bitwiseRight t_pos v =
     (case blockWise_loop 0 t_pos of
        (blockWise, t_pos') \<Rightarrow>
          (let v1 = (if blockWise > 0 then shiftBlocksRight blockWise v else v)
           in bitwiseRight_loop t_pos' 0 v1))"

text \<open>\<open>operator<<\<close> and \<open>operator>>\<close> shift a copy; \<open>operator<<=\<close> and \<open>operator>>=\<close>
  shift the receiver.\<close>

definition operator_shl :: "RuntimeBitset \<Rightarrow> nat \<Rightarrow> fresh \<Rightarrow> error + RuntimeBitset" where
  "operator_shl v t_pos junk =
     (case copy_construct v junk of Inl e \<Rightarrow> Inl e | Inr aux \<Rightarrow> bitwiseLeft t_pos aux)"

definition operator_shr :: "RuntimeBitset \<Rightarrow> nat \<Rightarrow> fresh \<Rightarrow> error + RuntimeBitset" where
  "operator_shr v t_pos junk =
     (case copy_construct v junk of Inl e \<Rightarrow> Inl e | Inr aux \<Rightarrow> bitwiseRight t_pos aux)"

definition operator_shl_assign :: "RuntimeBitset \<Rightarrow> nat \<Rightarrow> error + RuntimeBitset" where
  "operator_shl_assign v t_pos = bitwiseLeft t_pos v"

definition operator_shr_assign :: "RuntimeBitset \<Rightarrow> nat \<Rightarrow> error + RuntimeBitset" where
  "operator_shr_assign v t_pos = bitwiseRight t_pos v"

subsection \<open>Shifting, with the value the machine delivers\<close>

text \<open>
  The functions above stop at a native shift whose count is 64 or more. The compiled
  code does not stop there: the shift instruction delivers some word, which the rest of
  the loop goes on to use. The functions below are the same code with that word as a
  parameter: for a count of 64 or more, \<open>>>\<close> yields what the first component gives for
  the operand and the count, and \<open><<\<close> what the second gives. Where the functions above
  return a vector, these return the same one (lemmas \<open>bitwiseLeft_agree\<close> and
  \<open>bitwiseRight_agree\<close>).
\<close>

type_synonym shifter = "(block \<Rightarrow> nat \<Rightarrow> block) \<times> (block \<Rightarrow> nat \<Rightarrow> block)"

definition shr_on :: "shifter \<Rightarrow> block \<Rightarrow> nat \<Rightarrow> block" where
  "shr_on m w n = (if n < BLOCK_SIZE then drop_bit n w else fst m w n)"

definition shl_on :: "shifter \<Rightarrow> block \<Rightarrow> nat \<Rightarrow> block" where
  "shl_on m w n = (if n < BLOCK_SIZE then push_bit n w else snd m w n)"

fun bitwiseLeft_loop_on :: "shifter \<Rightarrow> nat \<Rightarrow> nat \<Rightarrow> RuntimeBitset \<Rightarrow> RuntimeBitset" where
  "bitwiseLeft_loop_on m t_pos 0 v = v"
| "bitwiseLeft_loop_on m t_pos (Suc i) v =
     (let remain = shr_on m (m_bits v ! i AND m_mask v ! i) (BLOCK_SIZE - t_pos);
          v1 = v\<lparr>m_bits := (m_bits v)[i := shl_on m (m_bits v ! i AND m_mask v ! i) t_pos]\<rparr>;
          v2 = (if i + 1 < m_blocks v1
                then v1\<lparr>m_bits := (m_bits v1)[i + 1 := m_bits v1 ! (i + 1) OR remain]\<rparr>
                else v1)
      in bitwiseLeft_loop_on m t_pos i v2)"

definition bitwiseLeft_on :: "shifter \<Rightarrow> nat \<Rightarrow> RuntimeBitset \<Rightarrow> RuntimeBitset" where
  "bitwiseLeft_on m t_pos v =
     (case blockWise_loop 0 t_pos of
        (blockWise, t_pos') \<Rightarrow>
          (let v1 = (if blockWise > 0 then shiftBlocksLeft blockWise v else v)
           in bitwiseLeft_loop_on m t_pos' (m_blocks v1) v1))"

function bitwiseRight_loop_on :: "shifter \<Rightarrow> nat \<Rightarrow> nat \<Rightarrow> RuntimeBitset \<Rightarrow> RuntimeBitset" where
  "bitwiseRight_loop_on m t_pos i v =
     (if i < m_blocks v
      then (let remain = shl_on m (m_bits v ! i AND m_mask v ! i) (BLOCK_SIZE - t_pos);
                v1 = v\<lparr>m_bits := (m_bits v)[i := shr_on m (m_bits v ! i AND m_mask v ! i) t_pos]\<rparr>;
                v2 = (if int i - 1 \<ge> 0
                      then v1\<lparr>m_bits := (m_bits v1)[i - 1 := m_bits v1 ! (i - 1) OR remain]\<rparr>
                      else v1)
            in bitwiseRight_loop_on m t_pos (i + 1) v2)
      else v)"
  by pat_completeness auto
termination
  by (relation "measure (\<lambda>(m, p, i, v). m_blocks v - i)") auto

declare bitwiseRight_loop_on.simps [simp del]

definition bitwiseRight_on :: "shifter \<Rightarrow> nat \<Rightarrow> RuntimeBitset \<Rightarrow> RuntimeBitset" where
  "bitwiseRight_on m t_pos v =
     (case blockWise_loop 0 t_pos of
        (blockWise, t_pos') \<Rightarrow>
          (let v1 = (if blockWise > 0 then shiftBlocksRight blockWise v else v)
           in bitwiseRight_loop_on m t_pos' 0 v1))"

text \<open>\<open>operator<<\<close> and \<open>operator>>\<close>; the copy constructor can still throw.\<close>

definition operator_shl_on :: "shifter \<Rightarrow> RuntimeBitset \<Rightarrow> nat \<Rightarrow> fresh \<Rightarrow> error + RuntimeBitset" where
  "operator_shl_on m v t_pos junk =
     (case copy_construct v junk of Inl e \<Rightarrow> Inl e | Inr aux \<Rightarrow> Inr (bitwiseLeft_on m t_pos aux))"

definition operator_shr_on :: "shifter \<Rightarrow> RuntimeBitset \<Rightarrow> nat \<Rightarrow> fresh \<Rightarrow> error + RuntimeBitset" where
  "operator_shr_on m v t_pos junk =
     (case copy_construct v junk of Inl e \<Rightarrow> Inl e | Inr aux \<Rightarrow> Inr (bitwiseRight_on m t_pos aux))"

section \<open>Auxiliary notions for the statements\<close>

text \<open>The class invariant every constructor establishes: a positive size, the block
  count \<open>getNumberBlocks\<close> gives for it, two arrays of that many blocks, and the masks
  \<open>buildMask\<close> writes.\<close>

definition valid :: "RuntimeBitset \<Rightarrow> bool" where
  "valid v \<longleftrightarrow>
     0 < m_size v \<and> m_blocks v = getNumberBlocks (m_size v) \<and>
     length (m_bits v) = m_blocks v \<and> length (m_mask v) = m_blocks v \<and>
     m_mask (buildMask v) = m_mask v"

text \<open>The number of characters \<open>'1'\<close> in a string.\<close>

definition ones :: "string \<Rightarrow> nat" where
  "ones s = length (filter (\<lambda>c. c = CHR ''1'') s)"

text \<open>The vector \<open>v\<close> with arbitrary garbage \<open>g i\<close> written into the bits of block \<open>i\<close>
  that lie outside its mask.\<close>

definition garbled :: "RuntimeBitset \<Rightarrow> (nat \<Rightarrow> block) \<Rightarrow> RuntimeBitset" where
  "garbled v g =
     v\<lparr>m_bits := map (\<lambda>i. m_bits v ! i OR (g i AND NOT (m_mask v ! i))) [0..<m_blocks v]\<rparr>"

text \<open>What \<open>count\<close> adds for block \<open>i\<close>: the inner loop on the masked block.\<close>

definition block_ones :: "RuntimeBitset \<Rightarrow> nat \<Rightarrow> nat" where
  "block_ones v i = count_block BLOCK_SIZE (m_bits v ! i AND m_mask v ! i) 0"

text \<open>The bit at logical position \<open>pos\<close>: bit \<open>pos % 64\<close> of block \<open>pos / 64\<close>, and the
  character \<open>to_string\<close> prints for a bit.\<close>

definition bit_at :: "RuntimeBitset \<Rightarrow> nat \<Rightarrow> bool" where
  "bit_at v pos = bit (m_bits v ! (pos div 64)) (pos mod 64)"

definition bit_char :: "bool \<Rightarrow> char" where
  "bit_char b = (if b then CHR ''1'' else CHR ''0'')"

section \<open>Example vectors\<close>

text \<open>\<open>RuntimeBitset(8, 0xB4)\<close>, \<open>RuntimeBitset(9)\<close> and \<open>RuntimeBitset(70)\<close> as the
  constructors build them (lemmas \<open>vec8_built\<close>, \<open>vec9_built\<close>, \<open>vec70_built\<close>).\<close>

definition vec8 :: RuntimeBitset where
  "vec8 = \<lparr>m_bits = [0xB4], m_mask = [0xFF], m_size = 8, m_blocks = 1\<rparr>"

definition vec9 :: RuntimeBitset where
  "vec9 = \<lparr>m_bits = [0], m_mask = [0x1FF], m_size = 9, m_blocks = 1\<rparr>"

definition vec70 :: RuntimeBitset where
  "vec70 = \<lparr>m_bits = [0, 0], m_mask = [0xFFFFFFFFFFFFFFFF, 0x3F], m_size = 70, m_blocks = 2\<rparr>"

text \<open>\<open>RuntimeBitset(70)\<close> after \<open>set(0)\<close> (lemma \<open>vec70_one_built\<close>).\<close>

definition vec70_one :: RuntimeBitset where
  "vec70_one = \<lparr>m_bits = [1, 0], m_mask = [0xFFFFFFFFFFFFFFFF, 0x3F], m_size = 70, m_blocks = 2\<rparr>"

text \<open>\<open>RuntimeBitset(1)\<close> (lemma \<open>vec1_built\<close>).\<close>

definition vec1 :: RuntimeBitset where
  "vec1 = \<lparr>m_bits = [0], m_mask = [1], m_size = 1, m_blocks = 1\<rparr>"

text \<open>Memory in which every cell handed out for \<open>m_bits\<close> holds 1, and the vectors
  \<open>RuntimeBitset(70, 0)\<close> and \<open>RuntimeBitset("0")\<close> built in it.\<close>

definition dirty :: fresh where
  "dirty = ((\<lambda>i. 1), (\<lambda>i. 0))"

definition vec70_dirty :: RuntimeBitset where
  "vec70_dirty = \<lparr>m_bits = [0, 1], m_mask = [0xFFFFFFFFFFFFFFFF, 0x3F], m_size = 70, m_blocks = 2\<rparr>"

definition vec1_dirty :: RuntimeBitset where
  "vec1_dirty = \<lparr>m_bits = [1], m_mask = [1], m_size = 1, m_blocks = 1\<rparr>"

text \<open>Two machines: one whose shift instructions take the count modulo 64, and one
  that delivers a fixed non-zero word for every shift by 64 or more.\<close>

definition count_mod_64 :: shifter where
  "count_mod_64 = ((\<lambda>w n. drop_bit (n mod 64) w), (\<lambda>w n. push_bit (n mod 64) w))"

definition stuck_shifter :: shifter where
  "stuck_shifter = ((\<lambda>w n. 0xDEAD), (\<lambda>w n. 0xBEEF))"

text \<open>A store with \<open>vec8\<close> at address 0 and \<open>vec9\<close> everywhere else.\<close>

definition store89 :: store where
  "store89 = (\<lambda>a. if a = 0 then vec8 else vec9)"

section \<open>Block count and masks\<close>

lemma ceil_step: "0 < (d::nat) \<Longrightarrow> (d + 63) div 64 = Suc ((d - 64 + 63) div 64)"
proof (cases "64 \<le> d")
  case True
  then have "d + 63 = (d - 64 + 63) + 64" by simp
  then have "(d + 63) div 64 = ((d - 64 + 63) + 64) div 64" by simp
  then show ?thesis by simp
next
  case False
  assume "0 < d"
  with False have "(d + 63) div 64 = 1" by simp
  with False show ?thesis by simp
qed

lemma getNumberBlocks_loop_eq: "getNumberBlocks_loop t i n = n + (t - i + 63) div 64"
proof (induction t i n rule: getNumberBlocks_loop.induct)
  case (1 t i n)
  show ?case
  proof (cases "i < t")
    case True
    have "(t - i + 63) div 64 = Suc ((t - i - 64 + 63) div 64)"
      using True by (intro ceil_step) simp
    then show ?thesis using "1.IH" [OF True] True
      by (subst getNumberBlocks_loop.simps) simp
  next
    case False
    then show ?thesis by (subst getNumberBlocks_loop.simps) simp
  qed
qed

lemma getNumberBlocks_eq: "getNumberBlocks t = (t + 63) div 64"
  by (simp add: getNumberBlocks_def getNumberBlocks_loop_eq)

lemma lastMask_range:
  assumes "0 < t"
  shows "1 \<le> t - (getNumberBlocks t - 1) * 64" "t - (getNumberBlocks t - 1) * 64 \<le> 64"
    "(getNumberBlocks t - 1) * 64 + (t - (getNumberBlocks t - 1) * 64) = t"
    "1 \<le> getNumberBlocks t"
  using assms unfolding getNumberBlocks_eq by linarith+

lemma buildMask_loop_fields:
  "m_bits (buildMask_loop i v) = m_bits v" "m_size (buildMask_loop i v) = m_size v"
  "m_blocks (buildMask_loop i v) = m_blocks v" "length (m_mask (buildMask_loop i v)) = length (m_mask v)"
  by (induction i v rule: buildMask_loop.induct; subst buildMask_loop.simps; simp)+

lemma buildMask_loop_nth:
  "j < length (m_mask v) \<Longrightarrow>
     m_mask (buildMask_loop i v) ! j = (if i \<le> j \<and> j < m_blocks v then ALL_BITS_ONE else m_mask v ! j)"
proof (induction i v rule: buildMask_loop.induct)
  case (1 i v)
  show ?case
  proof (cases "i < m_blocks v")
    case True
    then show ?thesis using "1.IH" [OF True] "1.prems"
      by (subst buildMask_loop.simps) (auto simp: nth_list_update)
  next
    case False
    then show ?thesis by (subst buildMask_loop.simps) auto
  qed
qed

lemma valid_mask_nth:
  assumes "valid v" "j < m_blocks v"
  shows "m_mask v ! j =
    (if j = m_blocks v - 1 then getLastMask (m_size v - (m_blocks v - 1) * 64) else ALL_BITS_ONE)"
proof -
  have len: "length (m_mask v) = m_blocks v" and same: "m_mask (buildMask v) = m_mask v"
    using assms(1) by (simp_all add: valid_def)
  have "m_mask (buildMask v) ! j =
    (if j = m_blocks v - 1 then getLastMask (m_size v - (m_blocks v - 1) * 64) else ALL_BITS_ONE)"
    using assms(2) len
    by (simp add: buildMask_def Let_def buildMask_loop_fields buildMask_loop_nth nth_list_update)
  then show ?thesis by (simp add: same)
qed

lemma getLastMask_mask: "k \<le> 64 \<Longrightarrow> getLastMask k = mask k"
  by (rule bit_word_eqI) (auto simp: getLastMask_def ALL_BITS_ONE_def bit_simps)

lemma ALL_BITS_ONE_mask: "ALL_BITS_ONE = mask 64"
  by (rule bit_word_eqI) (auto simp: ALL_BITS_ONE_def bit_simps)

lemma drop_bit_mask_block: "k \<le> 64 \<Longrightarrow> drop_bit 1 (mask k :: block) = mask (k - 1)"
  by (rule bit_word_eqI) (auto simp: bit_simps)

lemma count_block_zero: "count_block j 0 n = n"
  by (induction j arbitrary: n) simp_all

lemma count_block_mask: "k \<le> 64 \<Longrightarrow> count_block j (mask k) n = n + min j k"
proof (induction j arbitrary: k n)
  case 0 show ?case by simp
next
  case (Suc j)
  show ?case
  proof (cases "k = 0")
    case True
    then show ?thesis by (simp add: count_block_zero)
  next
    case False
    then have "odd (mask k :: block)" by (simp add: even_mask_iff)
    then have o: "(mask k :: block) mod 2 \<noteq> 0" by (simp add: even_iff_mod_2_eq_zero)
    have "k - 1 \<le> 64" using Suc.prems by simp
    then have "count_block j (mask (k - 1)) (n + 1) = n + 1 + min j (k - 1)" by (rule Suc.IH)
    moreover have "count_block (Suc j) (mask k) n = count_block j (mask (k - 1)) (n + 1)"
      using o drop_bit_mask_block [OF Suc.prems] by (simp del: drop_bit_Suc)
    ultimately show ?thesis using False by simp
  qed
qed

section \<open>Constructors establish the invariant\<close>

lemma buildMask_idem:
  assumes "length (m_mask v) = m_blocks v"
  shows "m_mask (buildMask (buildMask v)) = m_mask (buildMask v)"
proof (rule nth_equalityI)
  show "length (m_mask (buildMask (buildMask v))) = length (m_mask (buildMask v))"
    by (simp add: buildMask_def Let_def buildMask_loop_fields)
next
  fix j assume "j < length (m_mask (buildMask (buildMask v)))"
  then have j: "j < m_blocks v" using assms by (simp add: buildMask_def Let_def buildMask_loop_fields)
  then show "m_mask (buildMask (buildMask v)) ! j = m_mask (buildMask v) ! j"
    using assms
    by (simp add: buildMask_def Let_def buildMask_loop_fields buildMask_loop_nth nth_list_update)
qed

lemma buildMask_fields:
  "m_bits (buildMask v) = m_bits v" "m_size (buildMask v) = m_size v"
  "m_blocks (buildMask v) = m_blocks v" "length (m_mask (buildMask v)) = length (m_mask v)"
  by (simp_all add: buildMask_def Let_def buildMask_loop_fields)

lemma build_Inr:
  assumes "0 < t"
  shows "\<exists>w. build t junk v = Inr w \<and> valid w \<and> m_size w = t \<and>
             m_bits w = map (fst junk) [0..<getNumberBlocks t]"
proof -
  let ?b = "buildBlocks junk ((destroy v)\<lparr>m_size := t, m_blocks := getNumberBlocks t\<rparr>)"
  have len: "length (m_mask ?b) = m_blocks ?b" by (simp add: buildBlocks_def)
  have "valid (buildMask ?b)"
    unfolding valid_def using assms buildMask_idem [OF len]
    by (simp add: buildMask_fields) (simp add: buildBlocks_def)
  moreover have "m_bits (buildMask ?b) = map (fst junk) [0..<getNumberBlocks t]"
    by (simp add: buildMask_fields buildBlocks_def)
  moreover have "m_size (buildMask ?b) = t"
    by (simp add: buildMask_fields buildBlocks_def)
  ultimately show ?thesis using assms by (simp add: build_def)
qed

section \<open>Examples are what the constructors build\<close>

lemma getNumberBlocks_small: "0 < n \<Longrightarrow> n \<le> 64 \<Longrightarrow> getNumberBlocks n = 1"
  by (simp add: getNumberBlocks_def getNumberBlocks_loop.simps)

lemma vec8_built: "RuntimeBitset_size_num 8 0xB4 junk = Inr vec8"
  by (simp add: RuntimeBitset_size_num_def build_def unconstructed_def destroy_def buildBlocks_def
      buildMask_def buildMask_loop.simps getNumberBlocks_small getLastMask_def ALL_BITS_ONE_def vec8_def mask_eq_exp_minus_1)

lemma vec9_built: "RuntimeBitset_size 9 junk = Inr vec9"
  by (simp add: RuntimeBitset_size_def build_def unconstructed_def destroy_def buildBlocks_def
      buildMask_def buildMask_loop.simps getNumberBlocks_small getLastMask_def ALL_BITS_ONE_def vec9_def
      clean_def clean_loop.simps mask_eq_exp_minus_1)

lemma upt_0_2: "[0..<2] = [0, Suc 0]"
  by (simp add: numeral_2_eq_2)

lemma vec70_built: "RuntimeBitset_size 70 junk = Inr vec70"
  by (simp add: RuntimeBitset_size_def build_def unconstructed_def destroy_def buildBlocks_def
      buildMask_def buildMask_loop.simps getNumberBlocks_eq getLastMask_def ALL_BITS_ONE_def vec70_def
      clean_def clean_loop.simps mask_eq_exp_minus_1 upt_0_2)

lemma valid_vec70: "valid vec70"
  by (simp add: valid_def vec70_def getNumberBlocks_eq buildMask_def buildMask_loop.simps
      getLastMask_def ALL_BITS_ONE_def mask_eq_exp_minus_1)

lemma valid_vec70_one: "valid vec70_one"
  by (simp add: valid_def vec70_one_def getNumberBlocks_eq buildMask_def buildMask_loop.simps
      getLastMask_def ALL_BITS_ONE_def mask_eq_exp_minus_1)

lemma vec70_one_built: "set_pos vec70 0 = Inr vec70_one"
  by (simp add: set_pos_def getPosition_def getPosition_loop.simps getMaskPosition_def
      vec70_def vec70_one_def)

lemma valid_vec8: "valid vec8"
  by (simp add: valid_def vec8_def getNumberBlocks_eq buildMask_def buildMask_loop.simps
      getLastMask_def ALL_BITS_ONE_def mask_eq_exp_minus_1)

lemma to_string_vec1: "to_string vec1 = ''0''"
  by (simp add: to_string_def vec1_def eval_nat_numeral)

lemma vec1_built: "RuntimeBitset_size 1 junk = Inr vec1"
  by (simp add: RuntimeBitset_size_def build_def unconstructed_def destroy_def buildBlocks_def
      buildMask_def buildMask_loop.simps getNumberBlocks_eq getLastMask_def ALL_BITS_ONE_def vec1_def
      clean_def clean_loop.simps mask_eq_exp_minus_1)

section \<open>Counting and the text form\<close>

lemma count_block_acc: "count_block k b n = n + count_block k b 0"
proof (induction k arbitrary: b n)
  case 0 show ?case by simp
next
  case (Suc k)
  show ?case
    using Suc.IH [of "drop_bit 1 b" "n + 1"] Suc.IH [of "drop_bit 1 b" "Suc 0"] Suc.IH [of "drop_bit 1 b" n]
    by simp
qed

lemma ones_snoc: "ones (s @ [c]) = ones s + (if c = CHR ''1'' then 1 else 0)"
  by (simp add: ones_def)

lemma ones_append: "ones (s @ t) = ones s + ones t"
  by (simp add: ones_def)

lemma ones_rev: "ones (rev s) = ones s"
  by (simp add: ones_def flip: rev_filter)

lemma ones_Nil: "ones [] = 0"
  by (simp add: ones_def)

lemma masked_drop: "(b::block) AND m = b \<Longrightarrow> drop_bit 1 b AND drop_bit 1 m = drop_bit 1 b"
  by (metis drop_bit_and)

lemma masked_odd: "(b::block) AND m = b \<Longrightarrow> b mod 2 \<noteq> 0 \<Longrightarrow> m mod 2 \<noteq> 0"
  by (metis even_and_iff even_iff_mod_2_eq_zero)

lemma ones_to_string_block:
  "b AND m = b \<Longrightarrow> ones (to_string_block k b m buf) = ones buf + count_block k b 0"
proof (induction k arbitrary: b m buf)
  case 0 show ?case by simp
next
  case (Suc k)
  have d: "drop_bit 1 b AND drop_bit 1 m = drop_bit 1 b" using Suc.prems by (rule masked_drop)
  show ?case
  proof (cases "b mod 2 \<noteq> 0")
    case True
    then have "m mod 2 \<noteq> 0" by (rule masked_odd [OF Suc.prems])
    with True show ?thesis
      using Suc.IH [OF d] count_block_acc [of k "drop_bit 1 b" "Suc 0"] by (simp add: ones_snoc)
  next
    case False
    then show ?thesis using Suc.IH [OF d] by (simp add: ones_snoc)
  qed
qed

lemma count_loop_sum: "count_loop v i n = n + (\<Sum>j = i..<m_blocks v. block_ones v j)"
proof (induction v i n rule: count_loop.induct)
  case (1 v i n)
  show ?case
  proof (cases "i < m_blocks v")
    case True
    then show ?thesis
      using "1.IH" [OF True] count_block_acc [of 64 "m_bits v ! i AND m_mask v ! i" n]
      by (subst count_loop.simps) (simp add: block_ones_def sum.atLeast_Suc_lessThan)
  next
    case False
    then show ?thesis by (subst count_loop.simps) simp
  qed
qed

lemma count_sum: "count v = (\<Sum>j = 0..<m_blocks v. block_ones v j)"
  by (simp add: count_def count_loop_sum)

lemma ones_to_string_loop: "ones (to_string_loop v n acc) = ones acc + (\<Sum>j = 0..<n. block_ones v j)"
proof (induction n arbitrary: acc)
  case 0 show ?case by simp
next
  case (Suc n)
  have "(m_bits v ! n AND m_mask v ! n) AND m_mask v ! n = m_bits v ! n AND m_mask v ! n"
    by (simp add: and.assoc)
  then show ?case
    using Suc.IH ones_to_string_block [of "m_bits v ! n AND m_mask v ! n" "m_mask v ! n" 64 "[]"]
    by (simp add: ones_append ones_rev ones_Nil block_ones_def)
qed

lemma garbled_fields:
  "m_blocks (garbled v g) = m_blocks v" "m_mask (garbled v g) = m_mask v"
  "m_size (garbled v g) = m_size v"
  by (simp_all add: garbled_def)

lemma garbled_masked:
  "i < m_blocks v \<Longrightarrow>
     m_bits (garbled v g) ! i AND m_mask (garbled v g) ! i = m_bits v ! i AND m_mask v ! i"
  by (simp add: garbled_def bit.conj_disj_distrib2 and.assoc)

lemma block_ones_garbled: "i < m_blocks v \<Longrightarrow> block_ones (garbled v g) i = block_ones v i"
  by (simp add: block_ones_def garbled_masked)

lemma count_garbled: "count (garbled v g) = count v"
  by (simp add: count_sum garbled_fields block_ones_garbled)

lemma to_string_loop_garbled:
  "n \<le> m_blocks v \<Longrightarrow> to_string_loop (garbled v g) n acc = to_string_loop v n acc"
proof (induction n arbitrary: acc)
  case 0 show ?case by simp
next
  case (Suc n)
  then have "n < m_blocks v" by simp
  then have "m_bits (garbled v g) ! n AND m_mask v ! n = m_bits v ! n AND m_mask v ! n"
    using garbled_masked [of n v g] by (simp add: garbled_fields)
  then show ?case using Suc by (simp add: garbled_fields)
qed

lemma to_string_garbled: "to_string (garbled v g) = to_string v"
  by (simp add: to_string_def garbled_fields to_string_loop_garbled)

text \<open>
  Claim C6. For every vector, \<open>count\<close> is the number of characters \<open>'1'\<close> in
  \<open>to_string\<close>. Both mask every block before they inspect it: writing arbitrary garbage
  into the bits outside the masks changes neither result.
\<close>

theorem count_eq_ones:
  "count v = ones (to_string v) \<and>
   count (garbled v g) = count v \<and> to_string (garbled v g) = to_string v"
proof -
  have "count v = ones (to_string v)"
    by (simp add: count_sum to_string_def ones_to_string_loop ones_Nil)
  then show ?thesis
    by (simp add: count_garbled to_string_garbled)
qed

section \<open>The whole-vector \<open>set\<close>\<close>

lemma set_loop_fields:
  "m_mask (set_loop i v) = m_mask v" "m_size (set_loop i v) = m_size v"
  "m_blocks (set_loop i v) = m_blocks v" "length (m_bits (set_loop i v)) = length (m_bits v)"
  by (induction i v rule: set_loop.induct; subst set_loop.simps; simp)+

lemma set_loop_nth:
  "j < length (m_bits v) \<Longrightarrow>
     m_bits (set_loop i v) ! j = (if i \<le> j \<and> j < m_blocks v then ALL_BITS_ONE else m_bits v ! j)"
proof (induction i v rule: set_loop.induct)
  case (1 i v)
  show ?case
  proof (cases "i < m_blocks v")
    case True
    then show ?thesis using "1.IH" [OF True] "1.prems"
      by (subst set_loop.simps) (auto simp: nth_list_update)
  next
    case False
    then show ?thesis by (subst set_loop.simps) auto
  qed
qed

lemma all_loop_iff:
  "all_loop v i \<longleftrightarrow> (\<forall>j. i \<le> j \<and> j < m_blocks v \<longrightarrow> (m_bits v ! j AND m_mask v ! j) = m_mask v ! j)"
proof (induction v i rule: all_loop.induct)
  case (1 v i)
  show ?case
  proof (cases "i < m_blocks v \<and> (m_bits v ! i AND m_mask v ! i) = m_mask v ! i")
    case True
    have step: "all_loop v i = all_loop v (i + 1)" using True by (subst all_loop.simps) simp
    have ih: "all_loop v (i + 1) \<longleftrightarrow>
        (\<forall>j. i + 1 \<le> j \<and> j < m_blocks v \<longrightarrow> (m_bits v ! j AND m_mask v ! j) = m_mask v ! j)"
      using "1.IH" True by simp
    show ?thesis
    proof
      assume "all_loop v i"
      then have r: "\<forall>j. i + 1 \<le> j \<and> j < m_blocks v \<longrightarrow> (m_bits v ! j AND m_mask v ! j) = m_mask v ! j"
        using step ih by simp
      show "\<forall>j. i \<le> j \<and> j < m_blocks v \<longrightarrow> (m_bits v ! j AND m_mask v ! j) = m_mask v ! j"
      proof (intro allI impI)
        fix j assume j: "i \<le> j \<and> j < m_blocks v"
        show "(m_bits v ! j AND m_mask v ! j) = m_mask v ! j"
        proof (cases "j = i")
          case True
          then show ?thesis using \<open>i < m_blocks v \<and> (m_bits v ! i AND m_mask v ! i) = m_mask v ! i\<close> by simp
        next
          case False
          then have "i + 1 \<le> j" using j by simp
          then show ?thesis using r j by blast
        qed
      qed
    next
      assume "\<forall>j. i \<le> j \<and> j < m_blocks v \<longrightarrow> (m_bits v ! j AND m_mask v ! j) = m_mask v ! j"
      then have "\<forall>j. i + 1 \<le> j \<and> j < m_blocks v \<longrightarrow> (m_bits v ! j AND m_mask v ! j) = m_mask v ! j"
        by simp
      then show "all_loop v i" using step ih by simp
    qed
  next
    case False
    then show ?thesis by (subst all_loop.simps) auto
  qed
qed

lemma none_loop_first:
  "i < m_blocks v \<Longrightarrow> (m_bits v ! i AND m_mask v ! i) \<noteq> 0 \<Longrightarrow> \<not> none_loop v i"
  by (subst none_loop.simps) simp

lemma valid_mask_nonzero:
  assumes "valid v" shows "m_mask v ! 0 \<noteq> 0"
proof -
  have s: "0 < m_size v" and nb: "m_blocks v = getNumberBlocks (m_size v)"
    using assms by (simp_all add: valid_def)
  have pos: "0 < m_blocks v" using lastMask_range(4) [OF s] nb by simp
  let ?k = "m_size v - (m_blocks v - 1) * 64"
  have k: "1 \<le> ?k" "?k \<le> 64" using lastMask_range(1,2) [OF s] nb by simp_all
  have "mask ?k \<noteq> (0::block)" using k by (simp add: mask_eq_0_iff)
  moreover have "(mask 64 :: block) \<noteq> 0" by (simp add: mask_eq_0_iff)
  ultimately show ?thesis
    using valid_mask_nth [OF assms pos] k by (simp add: getLastMask_mask ALL_BITS_ONE_mask)
qed

lemma valid_mask_ones:
  assumes "valid v"
  shows "(\<Sum>j = 0..<m_blocks v. count_block 64 (m_mask v ! j) 0) = m_size v"
proof -
  have s: "0 < m_size v" and nb: "m_blocks v = getNumberBlocks (m_size v)"
    using assms by (simp_all add: valid_def)
  define n where "n = m_blocks v - 1"
  let ?k = "m_size v - n * 64"
  have pos: "m_blocks v = Suc n" using lastMask_range(4) [OF s] nb by (simp add: n_def)
  have k: "1 \<le> ?k" "?k \<le> 64" "n * 64 + ?k = m_size v"
    using lastMask_range(1,2,3) [OF s] nb by (simp_all add: n_def)
  have low: "count_block 64 (m_mask v ! j) 0 = 64" if "j < n" for j
    using valid_mask_nth [OF assms, of j] that pos count_block_mask [of 64 64 0]
    by (simp add: ALL_BITS_ONE_mask)
  have top: "count_block 64 (m_mask v ! n) 0 = ?k"
    using valid_mask_nth [OF assms, of n] pos k count_block_mask [of ?k 64 0]
    by (simp add: getLastMask_mask)
  have "(\<Sum>j = 0..<m_blocks v. count_block 64 (m_mask v ! j) 0)
        = (\<Sum>j = 0..<n. count_block 64 (m_mask v ! j) 0) + ?k"
    by (simp add: pos top)
  also have "(\<Sum>j = 0..<n. count_block 64 (m_mask v ! j) 0) = (\<Sum>j = 0..<n. 64)"
    by (rule sum.cong) (simp_all add: low)
  finally show ?thesis using k(3) by simp
qed

text \<open>
  Claim C10. The whole-vector \<open>set()\<close> writes \<open>ALL_BITS_ONE\<close> into every block, the
  bits of the last block outside its mask included; the masked readers still see exactly
  the \<open>size()\<close> significant bits set: \<open>all()\<close> is true, \<open>count()\<close> is \<open>size()\<close> and
  \<open>none()\<close> is false.
\<close>

theorem set_all_reads_as_full:
  assumes "valid v"
  shows "all_bits (set_all v) \<and> count (set_all v) = m_size v \<and> \<not> none (set_all v)"
proof -
  have len: "length (m_bits v) = m_blocks v" using assms by (simp add: valid_def)
  have s: "0 < m_size v" and nb: "m_blocks v = getNumberBlocks (m_size v)"
    using assms by (simp_all add: valid_def)
  have pos: "0 < m_blocks v" using lastMask_range(4) [OF s] nb by simp
  have bits: "m_bits (set_all v) ! j = ALL_BITS_ONE" if "j < m_blocks v" for j
    using that len by (simp add: set_all_def set_loop_nth)
  have masked: "m_bits (set_all v) ! j AND m_mask (set_all v) ! j = m_mask v ! j"
    if "j < m_blocks v" for j
    using bits [OF that] by (simp add: set_all_def set_loop_fields ALL_BITS_ONE_def)
  have blocks: "m_blocks (set_all v) = m_blocks v" by (simp add: set_all_def set_loop_fields)
  have a: "all_bits (set_all v)"
    using masked by (simp add: all_bits_def all_loop_iff blocks set_all_def set_loop_fields)
  have "count (set_all v) = (\<Sum>j = 0..<m_blocks v. count_block 64 (m_mask v ! j) 0)"
    unfolding count_sum blocks by (rule sum.cong) (simp_all add: block_ones_def masked)
  then have c: "count (set_all v) = m_size v" by (simp add: valid_mask_ones [OF assms])
  have n: "\<not> none (set_all v)"
    unfolding none_def
    by (rule none_loop_first) (simp_all add: blocks pos masked valid_mask_nonzero [OF assms])
  show ?thesis using a c n by simp
qed

theorem set_all_reads_as_full_witness:
  "valid vec70 \<and> all_bits (set_all vec70) \<and> count (set_all vec70) = m_size vec70 \<and>
   \<not> none (set_all vec70)"
  using valid_vec70 set_all_reads_as_full [OF valid_vec70] by simp

section \<open>Size mismatch\<close>

text \<open>
  Claim C7. For operands of different \<open>size()\<close> each of \<open>operator&\<close>, \<open>operator|\<close> and
  \<open>operator^\<close> throws \<open>RuntimeBitsetSizeDismatch\<close>. The comparison is the first statement:
  the outcome holds whatever the two block arrays contain, and the operands, being const
  references, are only read.
\<close>

theorem binary_size_mismatch:
  "m_size a \<noteq> m_size b \<Longrightarrow>
     operator_and a b junk = Inl SizeDismatch \<and>
     operator_or a b junk = Inl SizeDismatch \<and>
     operator_xor a b junk = Inl SizeDismatch"
  by (simp add: operator_and_def operator_or_def operator_xor_def)

theorem binary_size_mismatch_witness:
  "m_size vec8 \<noteq> m_size vec9 \<and>
   operator_and vec8 vec9 zeroed = Inl SizeDismatch \<and>
   operator_or vec8 vec9 zeroed = Inl SizeDismatch \<and>
   operator_xor vec8 vec9 zeroed = Inl SizeDismatch"
proof -
  have h: "m_size vec8 \<noteq> m_size vec9" by (simp add: vec8_def vec9_def)
  show ?thesis using h binary_size_mismatch [OF h, of zeroed] by simp
qed

text \<open>
  Claim C9. For a receiver and an argument of different \<open>size()\<close> each of \<open>&=\<close>,
  \<open>|=\<close> and \<open>^=\<close> throws \<open>RuntimeBitsetSizeDismatch\<close> and leaves the store, hence the
  receiver, as it was: the binary operator throws before the assignment runs.
\<close>

theorem compound_size_mismatch:
  "m_size (s a) \<noteq> m_size (s b) \<Longrightarrow>
     operator_and_assign a b junk s = (Some SizeDismatch, s) \<and>
     operator_or_assign a b junk s = (Some SizeDismatch, s) \<and>
     operator_xor_assign a b junk s = (Some SizeDismatch, s)"
  by (simp add: operator_and_assign_def operator_or_assign_def operator_xor_assign_def
      assign_result_def operator_and_def operator_or_def operator_xor_def)

theorem compound_size_mismatch_witness:
  "m_size (store89 0) \<noteq> m_size (store89 1) \<and>
   operator_and_assign 0 1 zeroed store89 = (Some SizeDismatch, store89) \<and>
   operator_or_assign 0 1 zeroed store89 = (Some SizeDismatch, store89) \<and>
   operator_xor_assign 0 1 zeroed store89 = (Some SizeDismatch, store89)"
proof -
  have h: "m_size (store89 0) \<noteq> m_size (store89 1)"
    by (simp add: store89_def vec8_def vec9_def)
  show ?thesis using h compound_size_mismatch [OF h, of zeroed] by simp
qed

lemma destroy_eq: "destroy v = \<lparr>m_bits = [], m_mask = [], m_size = 0, m_blocks = 0\<rparr>"
  by (cases v) (simp add: destroy_def)

text \<open>
  Claim C8. Copy assignment of a vector to itself throws \<open>RuntimeBitsetInvalidSize\<close>
  and leaves the vector destroyed: size 0, no blocks, both arrays released. \<open>copy\<close>
  destroys the target first and then builds it with the size of the source, which is the
  same object and now has size 0.
\<close>

theorem self_assignment_destroys:
  "copy_assign a a junk s =
     (Some InvalidSize, s(a := \<lparr>m_bits = [], m_mask = [], m_size = 0, m_blocks = 0\<rparr>)) \<and>
   \<not> valid (snd (copy_assign a a junk s) a)"
  by (simp add: copy_assign_def copy_def build_def destroy_eq valid_def)

section \<open>The copy constructor\<close>

lemma copy_loop_step:
  "i < m_blocks (s a) \<Longrightarrow>
     copy_loop a b i s =
     copy_loop a b (i + 1) (s(a := (s a)\<lparr>m_bits := (m_bits (s a))[i := m_bits (s b) ! i]\<rparr>))"
  by (subst copy_loop.simps) simp

lemma copy_loop_stop: "\<not> i < m_blocks (s a) \<Longrightarrow> copy_loop a b i s = s"
  by (subst copy_loop.simps) simp

lemma copy_loop_fields:
  "m_mask (copy_loop a b i s a) = m_mask (s a) \<and> m_size (copy_loop a b i s a) = m_size (s a) \<and>
   m_blocks (copy_loop a b i s a) = m_blocks (s a) \<and>
   length (m_bits (copy_loop a b i s a)) = length (m_bits (s a))"
proof (induction a b i s rule: copy_loop.induct)
  case (1 a b i s)
  show ?case
  proof (cases "i < m_blocks (s a)")
    case True
    define s' where "s' = s(a := (s a)\<lparr>m_bits := (m_bits (s a))[i := m_bits (s b) ! i]\<rparr>)"
    have step: "copy_loop a b i s = copy_loop a b (i + 1) s'"
      unfolding s'_def using True by (rule copy_loop_step)
    have sa: "s' a = (s a)\<lparr>m_bits := (m_bits (s a))[i := m_bits (s b) ! i]\<rparr>"
      by (simp add: s'_def)
    show ?thesis using "1.IH" [OF True, folded s'_def] unfolding step by (simp add: sa)
  next
    case False
    then show ?thesis by (simp add: copy_loop_stop)
  qed
qed

lemma copy_loop_nth:
  "a \<noteq> b \<Longrightarrow> j < length (m_bits (s a)) \<Longrightarrow>
     m_bits (copy_loop a b i s a) ! j =
       (if i \<le> j \<and> j < m_blocks (s a) then m_bits (s b) ! j else m_bits (s a) ! j)"
proof (induction a b i s rule: copy_loop.induct)
  case (1 a b i s)
  show ?case
  proof (cases "i < m_blocks (s a)")
    case True
    define s' where "s' = s(a := (s a)\<lparr>m_bits := (m_bits (s a))[i := m_bits (s b) ! i]\<rparr>)"
    have step: "copy_loop a b i s = copy_loop a b (i + 1) s'"
      unfolding s'_def using True by (rule copy_loop_step)
    have sa: "s' a = (s a)\<lparr>m_bits := (m_bits (s a))[i := m_bits (s b) ! i]\<rparr>"
      by (simp add: s'_def)
    have sb: "s' b = s b" using "1.prems"(1) by (simp add: s'_def)
    have "j < length (m_bits (s' a))" using "1.prems"(2) by (simp add: sa)
    note ih = "1.IH" [OF True, folded s'_def, OF "1.prems"(1) this]
    show ?thesis using ih True "1.prems"(2) unfolding step
      by (cases "j = i") (auto simp: sa sb nth_list_update)
  next
    case False
    then show ?thesis by (auto simp: copy_loop_stop)
  qed
qed

lemma buildMask_mask_cong:
  assumes "m_size v = m_size w" "m_blocks v = m_blocks w"
    "length (m_mask v) = m_blocks v" "length (m_mask w) = m_blocks w"
  shows "m_mask (buildMask v) = m_mask (buildMask w)"
proof (rule nth_equalityI)
  show "length (m_mask (buildMask v)) = length (m_mask (buildMask w))"
    using assms by (simp add: buildMask_fields)
next
  fix j assume "j < length (m_mask (buildMask v))"
  then have "j < m_blocks v" using assms by (simp add: buildMask_fields)
  then show "m_mask (buildMask v) ! j = m_mask (buildMask w) ! j"
    using assms
    by (simp add: buildMask_def Let_def buildMask_loop_fields buildMask_loop_nth nth_list_update)
qed

lemma build_mask_of_valid:
  assumes "valid v" "build (m_size v) junk x = Inr w"
  shows "m_mask w = m_mask v" "m_blocks w = m_blocks v" "m_size w = m_size v"
    "length (m_bits w) = m_blocks v"
proof -
  let ?b = "buildBlocks junk ((destroy x)\<lparr>m_size := m_size v, m_blocks := getNumberBlocks (m_size v)\<rparr>)"
  have w: "w = buildMask ?b" using assms by (simp add: build_def valid_def split: if_splits)
  have nb: "m_blocks v = getNumberBlocks (m_size v)" and lm: "length (m_mask v) = m_blocks v"
    and same: "m_mask (buildMask v) = m_mask v"
    using assms(1) by (simp_all add: valid_def)
  have "m_mask (buildMask ?b) = m_mask (buildMask v)"
    by (rule buildMask_mask_cong) (simp_all add: buildBlocks_def nb [symmetric] lm)
  then show "m_mask w = m_mask v" by (simp add: w same)
  show "m_blocks w = m_blocks v" by (simp add: w buildMask_fields buildBlocks_def nb)
  show "m_size w = m_size v" by (simp add: w buildMask_fields buildBlocks_def)
  show "length (m_bits w) = m_blocks v" by (simp add: w buildMask_fields buildBlocks_def nb)
qed

lemma copy_construct_valid:
  assumes "valid v"
  shows "copy_construct v junk = Inr v"
proof -
  let ?s1 = "((\<lambda>a. v)(0 := unconstructed))(0 := destroy unconstructed)"
  have s: "0 < m_size v" and lb: "length (m_bits v) = m_blocks v"
    using assms by (simp_all add: valid_def)
  obtain c where c: "build (m_size v) junk (destroy unconstructed) = Inr c"
    using build_Inr [OF s] by blast
  note f = build_mask_of_valid [OF assms c]
  let ?r = "copy_loop 0 1 0 (?s1(0 := c)) 0"
  have cp: "copy 0 1 junk ((\<lambda>a. v)(0 := unconstructed)) = (None, copy_loop 0 1 0 (?s1(0 := c)))"
    using c by (simp add: copy_def Let_def)
  have "m_bits ?r = m_bits v"
  proof (rule nth_equalityI)
    show "length (m_bits ?r) = length (m_bits v)" by (simp add: copy_loop_fields f lb)
  next
    fix j assume "j < length (m_bits ?r)"
    then have "j < m_blocks v" by (simp add: copy_loop_fields f)
    then show "m_bits ?r ! j = m_bits v ! j" by (simp add: copy_loop_nth f)
  qed
  moreover have "m_mask ?r = m_mask v" "m_size ?r = m_size v" "m_blocks ?r = m_blocks v"
    by (simp_all add: copy_loop_fields f)
  ultimately have "?r = v" by (intro RuntimeBitset.equality) simp_all
  then show ?thesis unfolding copy_construct_def cp by simp
qed

section \<open>Shifts whose intra-block remainder is 0\<close>

lemma blockWise_loop_eq: "blockWise_loop b p = (b + p div 64, p mod 64)"
proof (induction b p rule: blockWise_loop.induct)
  case (1 b p)
  show ?case
  proof (cases "64 \<le> p")
    case True
    then have "p div 64 = Suc ((p - 64) div 64)" "p mod 64 = (p - 64) mod 64"
      by (simp_all add: le_div_geq le_mod_geq)
    then show ?thesis using "1.IH" [OF True] True by (subst blockWise_loop.simps) simp
  next
    case False
    then show ?thesis by (subst blockWise_loop.simps) simp
  qed
qed

lemma shiftBlocksLeft_loop_fields:
  "m_mask (shiftBlocksLeft_loop p n v) = m_mask v" "m_size (shiftBlocksLeft_loop p n v) = m_size v"
  "m_blocks (shiftBlocksLeft_loop p n v) = m_blocks v"
  "length (m_bits (shiftBlocksLeft_loop p n v)) = length (m_bits v)"
  by (induction n arbitrary: v; simp add: Let_def)+

lemma shiftBlocksRight_loop_fields:
  "m_mask (shiftBlocksRight_loop p i v) = m_mask v" "m_size (shiftBlocksRight_loop p i v) = m_size v"
  "m_blocks (shiftBlocksRight_loop p i v) = m_blocks v"
  "length (m_bits (shiftBlocksRight_loop p i v)) = length (m_bits v)"
  by (induction p i v rule: shiftBlocksRight_loop.induct; subst shiftBlocksRight_loop.simps;
      simp add: Let_def)+

lemma bitwiseLeft_loop_full_width: "bitwiseLeft_loop 0 (Suc i) v = Inl UndefinedShift"
  by (simp add: shr_def)

lemma bitwiseRight_loop_full_width: "0 < m_blocks v \<Longrightarrow> bitwiseRight_loop 0 0 v = Inl UndefinedShift"
  by (subst bitwiseRight_loop.simps) (simp add: shl_def)

lemma bitwiseLeft_full_width:
  assumes "0 < m_blocks v" "t_pos mod 64 = 0"
  shows "bitwiseLeft t_pos v = Inl UndefinedShift"
proof -
  let ?v1 = "if 0 < t_pos div 64 then shiftBlocksLeft (t_pos div 64) v else v"
  have "m_blocks ?v1 = m_blocks v" by (simp add: shiftBlocksLeft_def shiftBlocksLeft_loop_fields)
  then obtain n where "m_blocks ?v1 = Suc n" using assms(1) by (cases "m_blocks v") simp_all
  then have "bitwiseLeft_loop 0 (m_blocks ?v1) ?v1 = Inl UndefinedShift"
    by (simp only: bitwiseLeft_loop_full_width)
  then show ?thesis using assms(2) by (simp add: bitwiseLeft_def blockWise_loop_eq Let_def)
qed

lemma bitwiseRight_full_width:
  assumes "0 < m_blocks v" "t_pos mod 64 = 0"
  shows "bitwiseRight t_pos v = Inl UndefinedShift"
proof -
  let ?v1 = "if 0 < t_pos div 64 then shiftBlocksRight (t_pos div 64) v else v"
  have "0 < m_blocks ?v1" using assms(1) by (simp add: shiftBlocksRight_def shiftBlocksRight_loop_fields)
  then have "bitwiseRight_loop 0 0 ?v1 = Inl UndefinedShift" by (rule bitwiseRight_loop_full_width)
  then show ?thesis using assms(2) by (simp add: bitwiseRight_def blockWise_loop_eq Let_def)
qed

lemma valid_blocks_pos: "valid v \<Longrightarrow> 0 < m_blocks v"
  using lastMask_range(4) [of "m_size v"] by (simp add: valid_def)

text \<open>
  Claim C1 says that a shift amount whose remainder \<open>r = k mod 64\<close> is 0 bypasses the
  intra-block step, so that no native shift by the full word width is evaluated. The
  code has no such bypass: the \<open>for\<close> loop of \<open>bitwiseLeft\<close> and of \<open>bitwiseRight\<close> always
  runs, and for every vector with at least one block and every shift amount that is a
  multiple of 64 its first iteration evaluates \<open>>> (BLOCK_SIZE - 0)\<close>, respectively
  \<open><< (BLOCK_SIZE - 0)\<close>: a native shift by 64.
\<close>

theorem remainder_zero_not_bypassed:
  "0 < m_blocks v \<Longrightarrow> t_pos mod 64 = 0 \<Longrightarrow>
     bitwiseLeft t_pos v = Inl UndefinedShift \<and> bitwiseRight t_pos v = Inl UndefinedShift"
  by (simp add: bitwiseLeft_full_width bitwiseRight_full_width)

theorem remainder_zero_not_bypassed_witness:
  "0 < m_blocks vec8 \<and> (0::nat) mod 64 = 0 \<and> (128::nat) mod 64 = 0 \<and>
   bitwiseLeft 0 vec8 = Inl UndefinedShift \<and> bitwiseRight 0 vec8 = Inl UndefinedShift \<and>
   bitwiseLeft 128 vec8 = Inl UndefinedShift \<and> bitwiseRight 128 vec8 = Inl UndefinedShift"
proof -
  have b: "0 < m_blocks vec8" by (simp add: vec8_def)
  have z: "(0::nat) mod 64 = 0" and m: "(128::nat) mod 64 = 0" by simp_all
  show ?thesis
    using b z m remainder_zero_not_bypassed [OF b z] remainder_zero_not_bypassed [OF b m]
    by simp
qed

text \<open>
  Claim C2 says that shifting by 0 is the identity. On the code each of \<open><<\<close>, \<open>>>\<close>,
  \<open><<=\<close> and \<open>>>=\<close> by 0, on any vector satisfying the class invariant, evaluates a
  native shift by 64, whose result C++ leaves undefined: the operation has no defined
  result, so it is not the identity.
\<close>

theorem shift_by_zero_undefined:
  "valid v \<Longrightarrow>
     operator_shl v 0 junk = Inl UndefinedShift \<and> operator_shr v 0 junk = Inl UndefinedShift \<and>
     operator_shl_assign v 0 = Inl UndefinedShift \<and> operator_shr_assign v 0 = Inl UndefinedShift"
  by (simp add: operator_shl_def operator_shr_def operator_shl_assign_def operator_shr_assign_def
      copy_construct_valid bitwiseLeft_full_width bitwiseRight_full_width valid_blocks_pos)

theorem shift_by_zero_undefined_witness:
  "valid vec70_one \<and>
   operator_shl vec70_one 0 zeroed = Inl UndefinedShift \<and>
   operator_shr vec70_one 0 zeroed = Inl UndefinedShift \<and>
   operator_shl_assign vec70_one 0 = Inl UndefinedShift \<and>
   operator_shr_assign vec70_one 0 = Inl UndefinedShift"
  using valid_vec70_one shift_by_zero_undefined [OF valid_vec70_one, of zeroed] by simp

section \<open>Whole-block moves\<close>

lemma shiftBlocksLeft_loop_nth:
  assumes "0 < q"
  shows "length (m_bits v) = m_blocks v \<Longrightarrow> n \<le> m_blocks v \<Longrightarrow> j < m_blocks v \<Longrightarrow>
         m_bits (shiftBlocksLeft_loop q n v) ! j =
           (if q \<le> j \<and> j - q < n then m_bits v ! (j - q) AND m_mask v ! (j - q)
            else if j < n then 0 else m_bits v ! j)"
proof (induction n arbitrary: v)
  case 0
  show ?case by simp
next
  case (Suc i)
  define v1 where "v1 = (if i + q < m_blocks v
                then v\<lparr>m_bits := (m_bits v)[i + q := m_bits v ! i AND m_mask v ! i]\<rparr> else v)"
  define v2 where "v2 = v1\<lparr>m_bits := (m_bits v1)[i := 0]\<rparr>"
  have step: "shiftBlocksLeft_loop q (Suc i) v = shiftBlocksLeft_loop q i v2"
    by (simp add: v1_def v2_def Let_def)
  have f: "m_blocks v2 = m_blocks v" "m_mask v2 = m_mask v" "length (m_bits v2) = m_blocks v"
    using Suc.prems by (simp_all add: v1_def v2_def)
  have b2: "m_bits v2 ! x = (if x = i then 0 else if x = i + q then m_bits v ! i AND m_mask v ! i
                           else m_bits v ! x)" if "x < m_blocks v" for x
    using that Suc.prems assms by (simp add: v1_def v2_def nth_list_update)
  have ih: "m_bits (shiftBlocksLeft_loop q i v2) ! j =
           (if q \<le> j \<and> j - q < i then m_bits v2 ! (j - q) AND m_mask v2 ! (j - q)
            else if j < i then 0 else m_bits v2 ! j)"
    using Suc.IH [of v2] Suc.prems f by simp
  show ?case
  proof (cases "q \<le> j \<and> j - q < i")
    case True
    then have "j - q < m_blocks v" "j - q \<noteq> i" "j - q \<noteq> i + q" using Suc.prems(2) by auto
    then show ?thesis using True ih b2 [of "j - q"] unfolding step by (simp add: f)
  next
    case False
    show ?thesis
    proof (cases "j = i + q")
      case True
      then show ?thesis using ih b2 [OF Suc.prems(3)] assms unfolding step by simp
    next
      case neq: False
      then have "\<not> (q \<le> j \<and> j - q < Suc i)" using False by auto
      then show ?thesis using False neq ih b2 [OF Suc.prems(3)] unfolding step
        by (cases "j = i") auto
    qed
  qed
qed

lemma shiftBlocksRight_loop_nth:
  shows "0 < q \<Longrightarrow> length (m_bits v) = m_blocks v \<Longrightarrow> j < m_blocks v \<Longrightarrow>
         m_bits (shiftBlocksRight_loop q i v) ! j =
           (if i \<le> j + q \<and> j + q < m_blocks v then m_bits v ! (j + q) AND m_mask v ! (j + q)
            else if i \<le> j then 0 else m_bits v ! j)"
proof (induction q i v rule: shiftBlocksRight_loop.induct)
  case (1 q i v)
  show ?case
  proof (cases "i < m_blocks v")
    case False
    then show ?thesis using "1.prems"(3) by (subst shiftBlocksRight_loop.simps) auto
  next
    case True
    define v1 where "v1 = (if int i - int q \<ge> 0
                then v\<lparr>m_bits := (m_bits v)[nat (int i - int q) := m_bits v ! i AND m_mask v ! i]\<rparr> else v)"
    define v2 where "v2 = v1\<lparr>m_bits := (m_bits v1)[i := 0]\<rparr>"
    have step: "shiftBlocksRight_loop q i v = shiftBlocksRight_loop q (i + 1) v2"
      using True by (subst shiftBlocksRight_loop.simps) (simp add: v1_def v2_def Let_def)
    have f: "m_blocks v2 = m_blocks v" "m_mask v2 = m_mask v" "length (m_bits v2) = m_blocks v"
      using "1.prems" by (simp_all add: v1_def v2_def)
    have b2: "m_bits v2 ! x = (if x = i then 0 else if x + q = i then m_bits v ! i AND m_mask v ! i
                           else m_bits v ! x)" if "x < m_blocks v" for x
      using that "1.prems" True by (auto simp: v1_def v2_def nth_list_update nat_diff_distrib')
    have ih: "m_bits (shiftBlocksRight_loop q (i + 1) v2) ! j =
           (if i + 1 \<le> j + q \<and> j + q < m_blocks v2 then m_bits v2 ! (j + q) AND m_mask v2 ! (j + q)
            else if i + 1 \<le> j then 0 else m_bits v2 ! j)"
      using "1.IH" [OF True refl v1_def, folded v2_def] f "1.prems" by simp
    show ?thesis
    proof (cases "i + 1 \<le> j + q \<and> j + q < m_blocks v")
      case True
      then have "j + q < m_blocks v" "j + q \<noteq> i" "j + q + q \<noteq> i" using "1.prems"(1) by auto
      then show ?thesis using True ih b2 [of "j + q"] unfolding step by (simp add: f)
    next
      case False
      show ?thesis
      proof (cases "j + q = i")
        case eq: True
        then have "j \<noteq> i" "\<not> i + 1 \<le> j" using "1.prems"(1) by auto
        then show ?thesis using eq True False ih b2 [OF "1.prems"(3)] unfolding step by (simp add: f)
      next
        case neq: False
        then have "\<not> (i \<le> j + q \<and> j + q < m_blocks v)" using False by auto
        then show ?thesis using False neq ih b2 [OF "1.prems"(3)] unfolding step
          by (cases "j = i") (auto simp: f)
      qed
    qed
  qed
qed

section \<open>The intra-block loops for a remainder between 1 and 63\<close>

lemma bitwiseLeft_loop_nth:
  assumes "0 < r" "r < 64"
  shows "length (m_bits v) = m_blocks v \<Longrightarrow> n \<le> m_blocks v \<Longrightarrow>
    \<exists>w. bitwiseLeft_loop r n v = Inr w \<and> m_mask w = m_mask v \<and> m_size w = m_size v \<and>
        m_blocks w = m_blocks v \<and> length (m_bits w) = m_blocks v \<and>
        (\<forall>j<m_blocks v. m_bits w ! j =
           (if j < n then push_bit r (m_bits v ! j AND m_mask v ! j) else m_bits v ! j) OR
           (if 0 < j \<and> j - 1 < n then drop_bit (64 - r) (m_bits v ! (j - 1) AND m_mask v ! (j - 1))
            else 0))"
proof (induction n arbitrary: v)
  case 0
  show ?case using "0.prems" by simp
next
  case (Suc i)
  define x where "x = m_bits v ! i AND m_mask v ! i"
  define v1 where "v1 = v\<lparr>m_bits := (m_bits v)[i := push_bit r x]\<rparr>"
  define v2 where "v2 = (if i + 1 < m_blocks v1
      then v1\<lparr>m_bits := (m_bits v1)[i + 1 := m_bits v1 ! (i + 1) OR drop_bit (64 - r) x]\<rparr> else v1)"
  have step: "bitwiseLeft_loop r (Suc i) v = bitwiseLeft_loop r i v2"
    using assms by (simp add: shr_def shl_def x_def v1_def v2_def Let_def)
  have f: "m_blocks v2 = m_blocks v" "m_mask v2 = m_mask v" "length (m_bits v2) = m_blocks v"
    "m_size v2 = m_size v"
    using Suc.prems by (simp_all add: v1_def v2_def)
  have b2: "m_bits v2 ! y = (if y = i then push_bit r x
                           else if y = i + 1 then m_bits v ! y OR drop_bit (64 - r) x
                           else m_bits v ! y)" if "y < m_blocks v" for y
    using that Suc.prems by (simp add: v1_def v2_def nth_list_update)
  obtain w where w: "bitwiseLeft_loop r i v2 = Inr w" "m_mask w = m_mask v" "m_size w = m_size v"
      "m_blocks w = m_blocks v" "length (m_bits w) = m_blocks v"
    and wn: "\<forall>j<m_blocks v. m_bits w ! j =
           (if j < i then push_bit r (m_bits v2 ! j AND m_mask v ! j) else m_bits v2 ! j) OR
           (if 0 < j \<and> j - 1 < i then drop_bit (64 - r) (m_bits v2 ! (j - 1) AND m_mask v ! (j - 1))
            else 0)"
    using Suc.IH [of v2] Suc.prems f by auto
  have "m_bits w ! j =
           (if j < Suc i then push_bit r (m_bits v ! j AND m_mask v ! j) else m_bits v ! j) OR
           (if 0 < j \<and> j - 1 < Suc i then drop_bit (64 - r) (m_bits v ! (j - 1) AND m_mask v ! (j - 1))
            else 0)" if j: "j < m_blocks v" for j
  proof -
    have pred: "j - 1 < m_blocks v" using j by simp
    note wj = wn [rule_format, OF j]
    consider "j < i" | "j = i" | "j = i + 1" | "i + 1 < j" by linarith
    then show ?thesis
    proof cases
      case 1
      then have a: "j - 1 < i" "j - 1 \<noteq> i" "j - 1 \<noteq> i + 1" "j \<noteq> i" "j \<noteq> i + 1" "j < Suc i"
        "j - 1 < Suc i" by auto
      show ?thesis using wj b2 [OF j] b2 [OF pred] 1 a by simp
    next
      case 2
      show ?thesis
      proof (cases "i = 0")
        case True
        then show ?thesis using wj b2 [OF j] 2 by (simp add: x_def)
      next
        case False
        then have a: "j - 1 < i" "j - 1 \<noteq> i" "j - 1 \<noteq> i + 1" "0 < j" "j - 1 < Suc i" using 2 by auto
        show ?thesis using wj b2 [OF j] b2 [OF pred] 2 a by (simp add: x_def)
      qed
    next
      case 3
      then have a: "\<not> j < i" "j \<noteq> i" "\<not> j - 1 < i" "0 < j" "j - 1 = i" "\<not> j < Suc i" by auto
      show ?thesis using wj b2 [OF j] 3 a by (simp add: x_def)
    next
      case 4
      then have a: "\<not> j < i" "j \<noteq> i" "j \<noteq> i + 1" "\<not> j - 1 < i" "\<not> j < Suc i" "\<not> j - 1 < Suc i"
        by auto
      show ?thesis using wj b2 [OF j] 4 a by simp
    qed
  qed
  then show ?case unfolding step using w by simp
qed

lemma bitwiseRight_loop_nth:
  shows "0 < r \<Longrightarrow> r < 64 \<Longrightarrow> length (m_bits v) = m_blocks v \<Longrightarrow>
    \<exists>w. bitwiseRight_loop r i v = Inr w \<and> m_mask w = m_mask v \<and> m_size w = m_size v \<and>
        m_blocks w = m_blocks v \<and> length (m_bits w) = m_blocks v \<and>
        (\<forall>j<m_blocks v. m_bits w ! j =
           (if i \<le> j then drop_bit r (m_bits v ! j AND m_mask v ! j) else m_bits v ! j) OR
           (if i \<le> j + 1 \<and> j + 1 < m_blocks v
            then push_bit (64 - r) (m_bits v ! (j + 1) AND m_mask v ! (j + 1)) else 0))"
proof (induction r i v rule: bitwiseRight_loop.induct)
  case (1 r i v)
  show ?case
  proof (cases "i < m_blocks v")
    case False
    then have "bitwiseRight_loop r i v = Inr v" by (subst bitwiseRight_loop.simps) simp
    then show ?thesis using False "1.prems" by auto
  next
    case True
    define x where "x = m_bits v ! i AND m_mask v ! i"
    define v1 where "v1 = v\<lparr>m_bits := (m_bits v)[i := drop_bit r x]\<rparr>"
    define v2 where "v2 = (if int i - 1 \<ge> 0
      then v1\<lparr>m_bits := (m_bits v1)[i - 1 := m_bits v1 ! (i - 1) OR push_bit (64 - r) x]\<rparr> else v1)"
    have sl: "shl x (64 - r) = Inr (push_bit (64 - r) x)" and sr: "shr x r = Inr (drop_bit r x)"
      using "1.prems" by (simp_all add: shl_def shr_def)
    have step: "bitwiseRight_loop r i v = bitwiseRight_loop r (i + 1) v2"
      using True by (subst bitwiseRight_loop.simps)
        (simp add: sl [unfolded x_def] sr [unfolded x_def] x_def v1_def v2_def Let_def)
    have f: "m_blocks v2 = m_blocks v" "m_mask v2 = m_mask v" "length (m_bits v2) = m_blocks v"
      "m_size v2 = m_size v"
      using "1.prems" by (simp_all add: v1_def v2_def)
    have b2: "m_bits v2 ! y = (if y = i then drop_bit r x
                           else if y + 1 = i then m_bits v ! y OR push_bit (64 - r) x
                           else m_bits v ! y)" if "y < m_blocks v" for y
      using that "1.prems" True by (auto simp: v1_def v2_def nth_list_update)
    have ih: "\<exists>w. bitwiseRight_loop r (i + 1) v2 = Inr w \<and> m_mask w = m_mask v2 \<and> m_size w = m_size v2 \<and>
        m_blocks w = m_blocks v2 \<and> length (m_bits w) = m_blocks v2 \<and>
        (\<forall>j<m_blocks v2. m_bits w ! j =
           (if i + 1 \<le> j then drop_bit r (m_bits v2 ! j AND m_mask v2 ! j) else m_bits v2 ! j) OR
           (if i + 1 \<le> j + 1 \<and> j + 1 < m_blocks v2
            then push_bit (64 - r) (m_bits v2 ! (j + 1) AND m_mask v2 ! (j + 1)) else 0))"
      using "1.IH" [OF True sl [unfolded x_def] sr [unfolded x_def], folded x_def,
                    OF v1_def v2_def "1.prems"(1,2)] f by simp
    then obtain w where w: "bitwiseRight_loop r (i + 1) v2 = Inr w" "m_mask w = m_mask v" "m_size w = m_size v"
      "m_blocks w = m_blocks v" "length (m_bits w) = m_blocks v"
      and wn: "\<forall>j<m_blocks v. m_bits w ! j =
           (if i + 1 \<le> j then drop_bit r (m_bits v2 ! j AND m_mask v ! j) else m_bits v2 ! j) OR
           (if i + 1 \<le> j + 1 \<and> j + 1 < m_blocks v
            then push_bit (64 - r) (m_bits v2 ! (j + 1) AND m_mask v ! (j + 1)) else 0)"
      using f by auto
    have "m_bits w ! j =
           (if i \<le> j then drop_bit r (m_bits v ! j AND m_mask v ! j) else m_bits v ! j) OR
           (if i \<le> j + 1 \<and> j + 1 < m_blocks v
            then push_bit (64 - r) (m_bits v ! (j + 1) AND m_mask v ! (j + 1)) else 0)"
      if j: "j < m_blocks v" for j
    proof -
      consider "j + 1 < i" | "j + 1 = i" | "j = i" | "i < j" by linarith
      then show ?thesis
      proof cases
        case 1
        then show ?thesis using wn j b2 [OF j] by simp
      next
        case 2
        then show ?thesis using wn j b2 [OF j] True by (simp add: x_def)
      next
        case 3
        show ?thesis
        proof (cases "j + 1 < m_blocks v")
          case True
          then show ?thesis using 3 wn j b2 [OF j] b2 [OF True] by (simp add: x_def)
        next
          case False
          then show ?thesis using 3 wn j b2 [OF j] by (simp add: x_def)
        qed
      next
        case 4
        show ?thesis
        proof (cases "j + 1 < m_blocks v")
          case True
          then show ?thesis using 4 wn j b2 [OF j] b2 [OF True] by simp
        next
          case False
          then show ?thesis using 4 wn j b2 [OF j] by simp
        qed
      qed
    qed
    then show ?thesis unfolding step using w by simp
  qed
qed

section \<open>Shifting by at least the size, remainder not 0\<close>

lemma none_loop_iff:
  "none_loop v i \<longleftrightarrow> (\<forall>j. i \<le> j \<and> j < m_blocks v \<longrightarrow> (m_bits v ! j AND m_mask v ! j) = 0)"
proof (induction v i rule: none_loop.induct)
  case (1 v i)
  show ?case
  proof (cases "i < m_blocks v \<and> (m_bits v ! i AND m_mask v ! i) = 0")
    case True
    have step: "none_loop v i = none_loop v (i + 1)" using True by (subst none_loop.simps) simp
    have ih: "none_loop v (i + 1) \<longleftrightarrow>
        (\<forall>j. i + 1 \<le> j \<and> j < m_blocks v \<longrightarrow> (m_bits v ! j AND m_mask v ! j) = 0)"
      using "1.IH" True by simp
    show ?thesis
    proof
      assume "none_loop v i"
      then have r: "\<forall>j. i + 1 \<le> j \<and> j < m_blocks v \<longrightarrow> (m_bits v ! j AND m_mask v ! j) = 0"
        using step ih by simp
      show "\<forall>j. i \<le> j \<and> j < m_blocks v \<longrightarrow> (m_bits v ! j AND m_mask v ! j) = 0"
      proof (intro allI impI)
        fix j assume j: "i \<le> j \<and> j < m_blocks v"
        show "(m_bits v ! j AND m_mask v ! j) = 0"
        proof (cases "j = i")
          case True
          then show ?thesis using \<open>i < m_blocks v \<and> (m_bits v ! i AND m_mask v ! i) = 0\<close> by simp
        next
          case False
          then have "i + 1 \<le> j" using j by simp
          then show ?thesis using r j by blast
        qed
      qed
    next
      assume "\<forall>j. i \<le> j \<and> j < m_blocks v \<longrightarrow> (m_bits v ! j AND m_mask v ! j) = 0"
      then have "\<forall>j. i + 1 \<le> j \<and> j < m_blocks v \<longrightarrow> (m_bits v ! j AND m_mask v ! j) = 0"
        by simp
      then show "none_loop v i" using step ih by simp
    qed
  next
    case False
    then show ?thesis by (subst none_loop.simps) auto
  qed
qed

lemma valid_same_shape:
  assumes "valid v" "m_mask w = m_mask v" "m_size w = m_size v" "m_blocks w = m_blocks v"
    "length (m_bits w) = m_blocks v"
  shows "valid w"
  using assms by (simp add: valid_def buildMask_mask_cong [of w v])

lemma push_bit_outside_mask: "n \<le> r \<Longrightarrow> push_bit r (x::block) AND mask n = 0"
  by (rule bit_word_eqI) (auto simp: bit_simps)

lemma drop_bit_inside_mask: "n \<le> r \<Longrightarrow> drop_bit r ((x::block) AND mask n) = 0"
  by (rule bit_word_eqI) (auto simp: bit_simps)

lemma drop_bit_inside_mask2: "n \<le> r \<Longrightarrow> drop_bit r (((x::block) AND mask n) AND y) = 0"
  by (rule bit_word_eqI) (auto simp: bit_simps)

lemma beyond_size_arith:
  fixes N k :: nat
  assumes "0 < N" "N \<le> k"
  shows "(N + 63) div 64 - 1 \<le> k div 64"
    and "k div 64 = (N + 63) div 64 - 1 \<Longrightarrow> N - ((N + 63) div 64 - 1) * 64 \<le> k mod 64"
proof -
  show "(N + 63) div 64 - 1 \<le> k div 64" using assms by linarith
  show "N - ((N + 63) div 64 - 1) * 64 \<le> k mod 64" if "k div 64 = (N + 63) div 64 - 1"
  proof -
    have "k = (k div 64) * 64 + k mod 64" by simp
    then have "k = ((N + 63) div 64 - 1) * 64 + k mod 64" using that by simp
    then show ?thesis using assms(2) by linarith
  qed
qed

lemma bitwiseLeft_unfold:
  "bitwiseLeft k v =
     bitwiseLeft_loop (k mod 64) (m_blocks v)
       (if 0 < k div 64 then shiftBlocksLeft (k div 64) v else v)"
  by (simp add: bitwiseLeft_def blockWise_loop_eq Let_def shiftBlocksLeft_def
      shiftBlocksLeft_loop_fields)

lemma bitwiseRight_unfold:
  "bitwiseRight k v =
     bitwiseRight_loop (k mod 64) 0 (if 0 < k div 64 then shiftBlocksRight (k div 64) v else v)"
  by (simp add: bitwiseRight_def blockWise_loop_eq Let_def)

lemma bitwiseLeft_beyond_size:
  assumes "valid v" "m_size v \<le> k" "k mod 64 \<noteq> 0"
  shows "\<exists>w. bitwiseLeft k v = Inr w \<and> valid w \<and> m_size w = m_size v \<and> none w"
proof -
  define q where "q = k div 64"
  define r where "r = k mod 64"
  define nb where "nb = m_blocks v"
  define v1 where "v1 = (if 0 < q then shiftBlocksLeft q v else v)"
  have r: "0 < r" "r < 64" using assms(3) by (simp_all add: r_def)
  have s: "0 < m_size v" and nbe: "nb = (m_size v + 63) div 64" and len: "length (m_bits v) = nb"
    using assms(1) by (simp_all add: valid_def nb_def getNumberBlocks_eq)
  have nbpos: "0 < nb" using valid_blocks_pos [OF assms(1)] by (simp add: nb_def)
  have qlow: "nb - 1 \<le> q" using beyond_size_arith(1) [OF s assms(2)] by (simp add: nbe q_def)
  have f1: "m_blocks v1 = nb" "m_mask v1 = m_mask v" "m_size v1 = m_size v" "length (m_bits v1) = nb"
    using len by (simp_all add: v1_def shiftBlocksLeft_def shiftBlocksLeft_loop_fields nb_def)
  have low: "m_bits v1 ! j = 0" if "j < nb" "j < q" for j
  proof -
    have "0 < q" using that by simp
    then show ?thesis
      using that shiftBlocksLeft_loop_nth [of q v nb j] len
      by (simp add: v1_def shiftBlocksLeft_def nb_def)
  qed
  have "\<exists>w. bitwiseLeft_loop r nb v1 = Inr w \<and> m_mask w = m_mask v \<and> m_size w = m_size v \<and>
        m_blocks w = nb \<and> length (m_bits w) = nb \<and>
        (\<forall>j<nb. m_bits w ! j =
           (if j < nb then push_bit r (m_bits v1 ! j AND m_mask v ! j) else m_bits v1 ! j) OR
           (if 0 < j \<and> j - 1 < nb then drop_bit (64 - r) (m_bits v1 ! (j - 1) AND m_mask v ! (j - 1))
            else 0))"
    using bitwiseLeft_loop_nth [OF r, of v1 nb] unfolding f1 by (simp del: push_bit_and drop_bit_and)
  then obtain w where w: "bitwiseLeft_loop r nb v1 = Inr w" "m_mask w = m_mask v" "m_size w = m_size v"
      "m_blocks w = nb" "length (m_bits w) = nb"
    and wn: "\<forall>j<nb. m_bits w ! j =
           (if j < nb then push_bit r (m_bits v1 ! j AND m_mask v ! j) else m_bits v1 ! j) OR
           (if 0 < j \<and> j - 1 < nb then drop_bit (64 - r) (m_bits v1 ! (j - 1) AND m_mask v ! (j - 1))
            else 0)"
    by (elim exE conjE)
  have zero: "m_bits w ! j AND m_mask w ! j = 0" if j: "j < nb" for j
  proof (cases "j < q")
    case True
    have "m_bits v1 ! j = 0" using low [OF j True] .
    moreover have "m_bits v1 ! (j - 1) = 0" using low [of "j - 1"] j True by simp
    ultimately have "m_bits w ! j = 0" using wn [rule_format, OF j] j by simp
    then show ?thesis by simp
  next
    case False
    then have jq: "j = nb - 1" "q = nb - 1" using qlow j by simp_all
    have prev: "m_bits v1 ! (j - 1) = 0" if "0 < j"
      using low [of "j - 1"] that j jq by simp
    have wj: "m_bits w ! j = push_bit r (m_bits v1 ! j AND m_mask v ! j)"
      using wn [rule_format, OF j] j prev by (cases "0 < j") simp_all
    have kk: "m_size v - (nb - 1) * 64 \<le> r"
      using beyond_size_arith(2) [OF s assms(2)] jq(2) by (simp add: q_def r_def nbe)
    have mk: "m_mask v ! j = mask (m_size v - (nb - 1) * 64)"
      using valid_mask_nth [OF assms(1), of j] j jq(1) lastMask_range(2) [OF s] assms(1)
      by (simp add: nb_def getLastMask_mask valid_def)
    show ?thesis unfolding wj w(2) mk by (rule push_bit_outside_mask [OF kk])
  qed
  have "none w" using zero by (simp add: none_def none_loop_iff w(4))
  moreover have "valid w"
    by (rule valid_same_shape [OF assms(1) w(2) w(3) w(4) [unfolded nb_def] w(5) [unfolded nb_def]])
  moreover have "bitwiseLeft k v = bitwiseLeft_loop r nb v1"
    unfolding r_def nb_def v1_def q_def by (rule bitwiseLeft_unfold)
  ultimately show ?thesis using w(1,3) by simp
qed

lemma bitwiseRight_beyond_size:
  assumes "valid v" "m_size v \<le> k" "k mod 64 \<noteq> 0"
  shows "\<exists>w. bitwiseRight k v = Inr w \<and> valid w \<and> m_size w = m_size v \<and> none w"
proof -
  define q where "q = k div 64"
  define r where "r = k mod 64"
  define nb where "nb = m_blocks v"
  define v1 where "v1 = (if 0 < q then shiftBlocksRight q v else v)"
  have r: "0 < r" "r < 64" using assms(3) by (simp_all add: r_def)
  have s: "0 < m_size v" and nbe: "nb = (m_size v + 63) div 64" and len: "length (m_bits v) = nb"
    using assms(1) by (simp_all add: valid_def nb_def getNumberBlocks_eq)
  have nbpos: "0 < nb" using valid_blocks_pos [OF assms(1)] by (simp add: nb_def)
  have qlow: "nb - 1 \<le> q" using beyond_size_arith(1) [OF s assms(2)] by (simp add: nbe q_def)
  have kk: "m_size v - (nb - 1) * 64 \<le> r" if "q = nb - 1"
    using beyond_size_arith(2) [OF s assms(2)] that by (simp add: q_def r_def nbe)
  have top: "m_mask v ! (nb - 1) = mask (m_size v - (nb - 1) * 64)"
    using valid_mask_nth [OF assms(1), of "nb - 1"] nbpos lastMask_range(2) [OF s] assms(1)
    by (simp add: nb_def getLastMask_mask valid_def)
  have f1: "m_blocks v1 = nb" "m_mask v1 = m_mask v" "m_size v1 = m_size v" "length (m_bits v1) = nb"
    using len by (simp_all add: v1_def shiftBlocksRight_def shiftBlocksRight_loop_fields nb_def)
  have high: "m_bits v1 ! j = 0" if "j < nb" "nb \<le> j + q" for j
  proof -
    have "0 < q" using that by linarith
    then show ?thesis
      using that shiftBlocksRight_loop_nth [of q v j 0] len
      by (simp add: v1_def shiftBlocksRight_def nb_def)
  qed
  have first: "drop_bit r (m_bits v1 ! 0 AND m_mask v ! 0) = 0"
  proof (cases "nb \<le> q")
    case True
    then show ?thesis using high [of 0] nbpos by simp
  next
    case False
    then have q: "q = nb - 1" using qlow by simp
    show ?thesis
    proof (cases "0 < q")
      case True
      then have "m_bits v1 ! 0 = m_bits v ! (nb - 1) AND m_mask v ! (nb - 1)"
        using shiftBlocksRight_loop_nth [of q v 0 0] len nbpos q
        by (simp add: v1_def shiftBlocksRight_def nb_def)
      then show ?thesis unfolding top by (simp only: drop_bit_inside_mask2 [OF kk [OF q]])
    next
      case False
      then have "nb - 1 = 0" "v1 = v" using q nbpos by (simp_all add: v1_def)
      then have "m_bits v1 ! 0 AND m_mask v ! 0 = m_bits v ! 0 AND mask (m_size v - (nb - 1) * 64)"
        using top by simp
      then show ?thesis by (simp only: drop_bit_inside_mask [OF kk [OF q]])
    qed
  qed
  have "\<exists>w. bitwiseRight_loop r 0 v1 = Inr w \<and> m_mask w = m_mask v \<and> m_size w = m_size v \<and>
        m_blocks w = nb \<and> length (m_bits w) = nb \<and>
        (\<forall>j<nb. m_bits w ! j =
           (if 0 \<le> j then drop_bit r (m_bits v1 ! j AND m_mask v ! j) else m_bits v1 ! j) OR
           (if 0 \<le> j + 1 \<and> j + 1 < nb
            then push_bit (64 - r) (m_bits v1 ! (j + 1) AND m_mask v ! (j + 1)) else 0))"
    using bitwiseRight_loop_nth [OF r, of v1 0] unfolding f1 by (simp del: push_bit_and drop_bit_and)
  then obtain w where w: "bitwiseRight_loop r 0 v1 = Inr w" "m_mask w = m_mask v" "m_size w = m_size v"
      "m_blocks w = nb" "length (m_bits w) = nb"
    and wn: "\<forall>j<nb. m_bits w ! j =
           (if 0 \<le> j then drop_bit r (m_bits v1 ! j AND m_mask v ! j) else m_bits v1 ! j) OR
           (if 0 \<le> j + 1 \<and> j + 1 < nb
            then push_bit (64 - r) (m_bits v1 ! (j + 1) AND m_mask v ! (j + 1)) else 0)"
    by (elim exE conjE)
  have zero: "m_bits w ! j = 0" if j: "j < nb" for j
  proof -
    have next0: "m_bits v1 ! (j + 1) = 0" if "j + 1 < nb"
      using high [OF that] qlow by simp
    have this0: "drop_bit r (m_bits v1 ! j AND m_mask v ! j) = 0"
    proof (cases "j = 0")
      case True
      then show ?thesis using first by simp
    next
      case False
      then have "m_bits v1 ! j = 0" using high [OF j] qlow by simp
      then show ?thesis by simp
    qed
    show ?thesis using wn [rule_format, OF j] this0 next0 by (cases "j + 1 < nb") simp_all
  qed
  have "none w" using zero by (simp add: none_def none_loop_iff w(4))
  moreover have "valid w"
    by (rule valid_same_shape [OF assms(1) w(2) w(3) w(4) [unfolded nb_def] w(5) [unfolded nb_def]])
  moreover have "bitwiseRight k v = bitwiseRight_loop r 0 v1"
    unfolding r_def v1_def q_def by (rule bitwiseRight_unfold)
  ultimately show ?thesis using w(1,3) by simp
qed

section \<open>The seeded constructor\<close>

lemma getPosition_loop_eq: "getPosition_loop p b = (b + p div 64, getMaskPosition (p mod 64))"
proof (induction p b rule: getPosition_loop.induct)
  case (1 p b)
  show ?case
  proof (cases "64 \<le> p")
    case True
    then have "p div 64 = Suc ((p - 64) div 64)" "p mod 64 = (p - 64) mod 64"
      by (simp_all add: le_div_geq le_mod_geq)
    then show ?thesis using "1.IH" [OF True] True by (subst getPosition_loop.simps) simp
  next
    case False
    then show ?thesis by (subst getPosition_loop.simps) simp
  qed
qed

lemma test_eq:
  "test v p = (if m_size v \<le> p then Inl OutOfRange
               else Inr (m_bits v ! (p div 64) AND push_bit (p mod 64) 1 \<noteq> 0))"
  by (simp add: test_def getValueInPosition_def getPosition_def getPosition_loop_eq
      getMaskPosition_def Let_def)

lemma valid_update_bits:
  assumes "valid v" "length bs = length (m_bits v)"
  shows "valid (v\<lparr>m_bits := bs\<rparr>)"
proof -
  have "m_mask (buildMask (v\<lparr>m_bits := bs\<rparr>)) = m_mask (buildMask v)"
    using assms(1) by (intro buildMask_mask_cong) (simp_all add: valid_def)
  then show ?thesis using assms by (simp add: valid_def)
qed

text \<open>
  Claim C4 says that \<open>RuntimeBitset(s, n)\<close> has size \<open>s\<close>, lowest block \<open>n\<close> and every
  higher block zero. The constructor is \<open>build(t_size); m_bits[0] = t_num;\<close> and, unlike
  \<open>RuntimeBitset(t_size)\<close>, never calls \<open>clean()\<close>: the size and the lowest block are as
  claimed, and every higher block holds what the allocator left in the fresh array.
\<close>

theorem seeded_constructor_blocks:
  "0 < t_size \<Longrightarrow>
     \<exists>v. RuntimeBitset_size_num t_size t_num junk = Inr v \<and> valid v \<and> m_size v = t_size \<and>
         m_bits v ! 0 = t_num \<and>
         (\<forall>i. 0 < i \<and> i < m_blocks v \<longrightarrow> m_bits v ! i = fst junk i)"
proof -
  assume s: "0 < t_size"
  obtain w where w: "build t_size junk unconstructed = Inr w" "valid w" "m_size w = t_size"
      "m_bits w = map (fst junk) [0..<getNumberBlocks t_size]"
    using build_Inr [OF s] by blast
  let ?v = "w\<lparr>m_bits := (m_bits w)[0 := t_num]\<rparr>"
  have nb: "m_blocks w = getNumberBlocks t_size" "0 < m_blocks w"
    using w(2,3) valid_blocks_pos [OF w(2)] by (simp_all add: valid_def)
  have "valid ?v" using w(2) by (simp add: valid_update_bits)
  moreover have "m_bits ?v ! 0 = t_num" using nb by (simp add: w(4))
  moreover have "\<forall>i. 0 < i \<and> i < m_blocks ?v \<longrightarrow> m_bits ?v ! i = fst junk i"
    using nb by (simp add: w(4))
  ultimately show ?thesis using w(1,3) by (simp add: RuntimeBitset_size_num_def)
qed

lemma vec70_dirty_built: "RuntimeBitset_size_num 70 0 dirty = Inr vec70_dirty"
  by (simp add: RuntimeBitset_size_num_def build_def unconstructed_def destroy_def buildBlocks_def
      buildMask_def buildMask_loop.simps getNumberBlocks_eq getLastMask_def ALL_BITS_ONE_def
      vec70_dirty_def dirty_def mask_eq_exp_minus_1 upt_0_2)

theorem seeded_constructor_blocks_witness:
  "(0::nat) < 70 \<and> RuntimeBitset_size_num 70 0 dirty = Inr vec70_dirty \<and>
   m_bits vec70_dirty ! 1 = fst dirty 1 \<and> m_bits vec70_dirty ! 1 \<noteq> 0 \<and>
   test vec70_dirty 64 = Inr True"
proof -
  have h: "(0::nat) < 70" by simp
  have t: "test vec70_dirty 64 = Inr True" by (simp add: test_eq vec70_dirty_def)
  show ?thesis
    using h t seeded_constructor_blocks [OF h, of 0 dirty]
    by (simp add: vec70_dirty_built) (simp add: vec70_dirty_def dirty_def)
qed

section \<open>The text form, position by position\<close>

lemma upt_Suc_shift: "[0..<Suc k] = 0 # map Suc [0..<k]"
  by (simp add: upt_conv_Cons map_Suc_upt del: upt_Suc)

lemma to_string_block_eq:
  "to_string_block k b m buf = buf @ map (\<lambda>j. bit_char (bit b j)) (filter (bit m) [0..<k])"
proof (induction k arbitrary: b m buf)
  case 0
  show ?case by simp
next
  case (Suc k)
  define b' where "b' = drop_bit 1 b"
  define m' where "m' = drop_bit 1 m"
  define buf' where "buf' = (if bit m 0 then buf @ [bit_char (bit b 0)] else buf)"
  have b0: "b mod 2 \<noteq> 0 \<longleftrightarrow> bit b 0" and m0: "m mod 2 \<noteq> 0 \<longleftrightarrow> bit m 0"
    by (simp_all add: bit_0 even_iff_mod_2_eq_zero)
  have step: "to_string_block (Suc k) b m buf = to_string_block k b' m' buf'"
    unfolding to_string_block.simps b0 m0 b'_def m'_def buf'_def by (simp add: bit_char_def)
  have sh: "bit b' = (\<lambda>j. bit b (Suc j))" "bit m' = (\<lambda>j. bit m (Suc j))"
    by (auto simp: b'_def m'_def bit_drop_bit_eq fun_eq_iff)
  show ?case
    unfolding step Suc.IH sh upt_Suc_shift by (simp add: buf'_def filter_map comp_def)
qed

lemma filter_less_upt: "filter (\<lambda>j. j < w) [0..<n] = [0..<min w n]"
proof (induction n)
  case 0
  show ?case by simp
next
  case (Suc n)
  show ?case
  proof (cases "n < w")
    case True
    then have "min w (Suc n) = Suc n" "min w n = n" by simp_all
    then show ?thesis using Suc True by simp
  next
    case False
    then have "min w (Suc n) = w" "min w n = w" by simp_all
    then show ?thesis using Suc False by simp
  qed
qed

lemma filter_mask_upt: "w \<le> 64 \<Longrightarrow> filter (bit (mask w :: block)) [0..<64] = [0..<w]"
proof -
  assume w: "w \<le> 64"
  have "filter (bit (mask w :: block)) [0..<64] = filter (\<lambda>j. j < w) [0..<64]"
    by (rule filter_cong) (auto simp: bit_simps)
  then show ?thesis using w by (simp add: filter_less_upt min_def)
qed

lemma to_string_block_mask:
  assumes "w \<le> 64"
  shows "to_string_block 64 (b AND mask w) (mask w) [] = map (\<lambda>j. bit_char (bit b j)) [0..<w]"
proof -
  have "map (\<lambda>j. bit_char (bit (b AND mask w) j)) [0..<w] = map (\<lambda>j. bit_char (bit b j)) [0..<w]"
    using assms by (intro map_cong) (auto simp: bit_simps)
  then show ?thesis by (simp add: to_string_block_eq filter_mask_upt [OF assms])
qed

text \<open>The number of significant bits of block \<open>i\<close>.\<close>

lemma valid_mask_width:
  assumes "valid v" "i < m_blocks v"
  shows "m_mask v ! i = mask (if i = m_blocks v - 1 then m_size v - (m_blocks v - 1) * 64 else 64)"
  using valid_mask_nth [OF assms] lastMask_range(2) [of "m_size v"] assms(1)
  by (simp add: valid_def getLastMask_mask ALL_BITS_ONE_mask)

lemma to_string_loop_concat:
  "to_string_loop v n acc =
     acc @ concat (map (\<lambda>i. rev (to_string_block 64 (m_bits v ! i AND m_mask v ! i) (m_mask v ! i) []))
                       (rev [0..<n]))"
  by (induction n arbitrary: acc) simp_all

lemma concat_full_blocks:
  "concat (map (\<lambda>i. map (h i) [0..<64]) [0..<n]) = map (\<lambda>p. h (p div 64) (p mod 64)) [0..<n * 64]"
proof (induction n)
  case 0
  show ?case by simp
next
  case (Suc n)
  have "[0..<n * 64 + 64] = [0..<n * 64] @ [n * 64..<n * 64 + 64]"
    by (rule upt_add_eq_append) simp
  then have split: "[0..<Suc n * 64] = [0..<n * 64] @ map (\<lambda>j. j + n * 64) [0..<64]"
    by (simp add: map_add_upt add.commute)
  show ?case unfolding split using Suc.IH by (simp add: comp_def)
qed

lemma rev_to_string:
  assumes "valid v"
  shows "rev (to_string v) = map (\<lambda>p. bit_char (bit_at v p)) [0..<m_size v]"
proof -
  define n where "n = m_blocks v - 1"
  define kk where "kk = m_size v - n * 64"
  have s: "0 < m_size v" and nb: "m_blocks v = getNumberBlocks (m_size v)"
    using assms by (simp_all add: valid_def)
  have nbn: "m_blocks v = Suc n" using lastMask_range(4) [OF s] nb by (simp add: n_def)
  have kk: "kk \<le> 64" "n * 64 + kk = m_size v"
    using lastMask_range(2,3) [OF s] nb by (simp_all add: n_def kk_def)
  have blk: "to_string_block 64 (m_bits v ! i AND m_mask v ! i) (m_mask v ! i) [] =
        map (\<lambda>j. bit_char (bit (m_bits v ! i) j)) [0..<(if i = n then kk else 64)]"
    if "i < Suc n" for i
    using valid_mask_width [OF assms, of i] that kk(1)
    by (simp add: nbn n_def [symmetric] kk_def [symmetric] to_string_block_mask)
  have "rev (to_string v) =
      concat (map (\<lambda>i. map (\<lambda>j. bit_char (bit (m_bits v ! i) j)) [0..<(if i = n then kk else 64)]) [0..<Suc n])"
    unfolding to_string_def to_string_loop_concat nbn
    by (simp only: append_Nil rev_concat rev_map rev_rev_ident map_map comp_def)
       (rule arg_cong [where f = concat], rule map_cong [OF refl], rule blk, auto)
  also have "\<dots> = concat (map (\<lambda>i. map (\<lambda>j. bit_char (bit (m_bits v ! i) j)) [0..<64]) [0..<n]) @
        map (\<lambda>j. bit_char (bit (m_bits v ! n) j)) [0..<kk]"
  proof -
    have eq: "map (\<lambda>i. map (\<lambda>j. bit_char (bit (m_bits v ! i) j)) [0..<(if i = n then kk else 64)]) [0..<n] =
          map (\<lambda>i. map (\<lambda>j. bit_char (bit (m_bits v ! i) j)) [0..<64]) [0..<n]"
      by (rule map_cong) simp_all
    show ?thesis by (simp add: eq)
  qed
  also have "\<dots> = map (\<lambda>p. bit_char (bit_at v p)) [0..<n * 64] @
        map (\<lambda>j. bit_char (bit_at v (j + n * 64))) [0..<kk]"
    using kk(1) by (simp add: concat_full_blocks bit_at_def)
  also have "\<dots> = map (\<lambda>p. bit_char (bit_at v p)) ([0..<n * 64] @ map (\<lambda>j. j + n * 64) [0..<kk])"
    by (simp add: comp_def)
  also have "[0..<n * 64] @ map (\<lambda>j. j + n * 64) [0..<kk] = [0..<m_size v]"
    using kk(2) upt_add_eq_append [of 0 "n * 64" kk] by (simp add: map_add_upt add.commute)
  finally show ?thesis .
qed

section \<open>Reading and setting single bits\<close>

lemma and_single_bit: "(x::block) AND 2 ^ n \<noteq> 0 \<longleftrightarrow> bit x n"
  by (simp add: and_exp_eq_0_iff_not_bit)

lemma test_bit_at: "p < m_size v \<Longrightarrow> test v p = Inr (bit_at v p)"
  by (simp add: test_eq bit_at_def and_single_bit)

lemma set_pos_eq:
  "p < m_size v \<Longrightarrow>
     set_pos v p =
       Inr (v\<lparr>m_bits := (m_bits v)[p div 64 := m_bits v ! (p div 64) OR push_bit (p mod 64) 1]\<rparr>)"
  by (simp add: set_pos_def getPosition_def getPosition_loop_eq getMaskPosition_def)

lemma same_position: "(pos::nat) = p \<longleftrightarrow> pos div 64 = p div 64 \<and> pos mod 64 = p mod 64"
  by (metis div_mult_mod_eq)

lemma bit_at_set:
  assumes "p div 64 < length (m_bits v)"
  shows "bit_at (v\<lparr>m_bits := (m_bits v)[p div 64 := m_bits v ! (p div 64) OR push_bit (p mod 64) 1]\<rparr>) pos
         \<longleftrightarrow> pos = p \<or> bit_at v pos"
proof (cases "pos div 64 = p div 64")
  case True
  have "bit (m_bits v ! (p div 64) OR push_bit (p mod 64) (1::block)) (pos mod 64) \<longleftrightarrow>
        bit (m_bits v ! (p div 64)) (pos mod 64) \<or> pos mod 64 = p mod 64"
    by (auto simp: bit_simps)
  then show ?thesis using True assms by (auto simp: bit_at_def same_position [of pos p])
next
  case False
  then show ?thesis using assms by (auto simp: bit_at_def)
qed

section \<open>The string constructor, bit by bit\<close>

lemma buildFromString_loop_bits:
  "sizeAux = length s - 1 \<Longrightarrow> set s \<subseteq> {CHR ''0'', CHR ''1''} \<Longrightarrow> m_size b = length s \<Longrightarrow>
   length (m_bits b) = m_blocks b \<Longrightarrow> length s \<le> m_blocks b * 64 \<Longrightarrow>
   \<exists>w. buildFromString_loop s sizeAux i b = Inr w \<and> m_mask w = m_mask b \<and> m_size w = m_size b \<and>
       m_blocks w = m_blocks b \<and> length (m_bits w) = m_blocks b \<and>
       (\<forall>pos<length s. bit_at w pos \<longleftrightarrow>
          bit_at b pos \<or> (i \<le> length s - 1 - pos \<and> s ! (length s - 1 - pos) = CHR ''1''))"
proof (induction s sizeAux i b rule: buildFromString_loop.induct)
  case (1 s sizeAux i b)
  show ?case
  proof (cases "i < length s")
    case False
    have "buildFromString_loop s sizeAux i b = Inr b"
      using False by (subst buildFromString_loop.simps) simp
    moreover have "\<not> i \<le> length s - 1 - pos" if "pos < length s" for pos
      using False that by linarith
    ultimately show ?thesis using "1.prems"(4) by simp
  next
    case True
    then have ch: "s ! i = CHR ''0'' \<or> s ! i = CHR ''1''" using "1.prems"(2) nth_mem by fastforce
    have rng: "sizeAux - i < m_size b" using True "1.prems"(1,3) by simp
    show ?thesis
    proof (cases "s ! i = CHR ''1''")
      case one: True
      define b' where "b' = b\<lparr>m_bits := (m_bits b)[(sizeAux - i) div 64 :=
                           m_bits b ! ((sizeAux - i) div 64) OR push_bit ((sizeAux - i) mod 64) 1]\<rparr>"
      have sp: "set_pos b (sizeAux - i) = Inr b'" unfolding b'_def by (rule set_pos_eq [OF rng])
      have step: "buildFromString_loop s sizeAux i b = buildFromString_loop s sizeAux (i + 1) b'"
        using True one sp by (subst buildFromString_loop.simps) simp
      have f: "m_mask b' = m_mask b" "m_size b' = m_size b" "m_blocks b' = m_blocks b"
        "length (m_bits b') = m_blocks b"
        using "1.prems"(4) by (simp_all add: b'_def)
      have idx: "(sizeAux - i) div 64 < length (m_bits b)"
        using rng "1.prems"(3,4,5) by (simp add: less_mult_imp_div_less)
      have bs: "bit_at b' pos \<longleftrightarrow> pos = sizeAux - i \<or> bit_at b pos" for pos
        unfolding b'_def by (rule bit_at_set [OF idx])
      obtain w where w: "buildFromString_loop s sizeAux (i + 1) b' = Inr w" "m_mask w = m_mask b"
          "m_size w = m_size b" "m_blocks w = m_blocks b" "length (m_bits w) = m_blocks b"
        and wn: "\<forall>pos<length s. bit_at w pos \<longleftrightarrow>
          bit_at b' pos \<or> (i + 1 \<le> length s - 1 - pos \<and> s ! (length s - 1 - pos) = CHR ''1'')"
        using "1.IH"(1) [OF True one sp "1.prems"(1,2)] f "1.prems"(3,5) by auto
      have "bit_at w pos \<longleftrightarrow>
          bit_at b pos \<or> (i \<le> length s - 1 - pos \<and> s ! (length s - 1 - pos) = CHR ''1'')"
        if pos: "pos < length s" for pos
      proof (cases "pos = sizeAux - i")
        case True
        then have "length s - 1 - pos = i" using \<open>i < length s\<close> "1.prems"(1) by simp
        then show ?thesis using wn [rule_format, OF pos] bs [of pos] True one by simp
      next
        case False
        then have "length s - 1 - pos \<noteq> i" using pos \<open>i < length s\<close> "1.prems"(1) by linarith
        then have "i + 1 \<le> length s - 1 - pos \<longleftrightarrow> i \<le> length s - 1 - pos" by linarith
        then show ?thesis using wn [rule_format, OF pos] bs [of pos] False by simp
      qed
      then show ?thesis unfolding step using w by simp
    next
      case zero: False
      then have z: "s ! i = CHR ''0''" using ch by simp
      have step: "buildFromString_loop s sizeAux i b = buildFromString_loop s sizeAux (i + 1) b"
        using True zero z by (subst buildFromString_loop.simps) simp
      obtain w where w: "buildFromString_loop s sizeAux (i + 1) b = Inr w" "m_mask w = m_mask b"
          "m_size w = m_size b" "m_blocks w = m_blocks b" "length (m_bits w) = m_blocks b"
        and wn: "\<forall>pos<length s. bit_at w pos \<longleftrightarrow>
          bit_at b pos \<or> (i + 1 \<le> length s - 1 - pos \<and> s ! (length s - 1 - pos) = CHR ''1'')"
        using "1.IH"(2) [OF True zero z "1.prems"] by auto
      have "bit_at w pos \<longleftrightarrow>
          bit_at b pos \<or> (i \<le> length s - 1 - pos \<and> s ! (length s - 1 - pos) = CHR ''1'')"
        if pos: "pos < length s" for pos
      proof (cases "length s - 1 - pos = i")
        case True
        then show ?thesis using wn [rule_format, OF pos] z by simp
      next
        case False
        then have "i + 1 \<le> length s - 1 - pos \<longleftrightarrow> i \<le> length s - 1 - pos" by linarith
        then show ?thesis using wn [rule_format, OF pos] by simp
      qed
      then show ?thesis unfolding step using w by simp
    qed
  qed
qed

lemma to_string_length: "valid v \<Longrightarrow> length (to_string v) = m_size v"
  using arg_cong [OF rev_to_string, of v length] by simp

lemma to_string_nth:
  assumes "valid v" "pos < m_size v"
  shows "to_string v ! (m_size v - 1 - pos) = bit_char (bit_at v pos)"
proof -
  have "rev (to_string v) ! pos = bit_char (bit_at v pos)"
    using assms by (simp add: rev_to_string)
  then show ?thesis using assms by (simp add: rev_nth to_string_length)
qed

lemma to_string_chars: "valid v \<Longrightarrow> set (to_string v) \<subseteq> {CHR ''0'', CHR ''1''}"
proof -
  assume "valid v"
  then have "set (rev (to_string v)) \<subseteq> {CHR ''0'', CHR ''1''}"
    by (auto simp: rev_to_string bit_char_def simp del: set_rev)
  then show ?thesis by simp
qed

lemma string_round_trip_general:
  assumes "valid v"
  shows "\<exists>w. RuntimeBitset_string (to_string v) junk = Inr w \<and> valid w \<and> m_size w = m_size v \<and>
           (\<forall>pos<m_size v. test v pos = Inr (bit_at v pos) \<and>
              test w pos = Inr (bit_at v pos \<or> bit (fst junk (pos div 64)) (pos mod 64)))"
proof -
  define s where "s = to_string v"
  define N where "N = m_size v"
  have N: "0 < N" and nb: "m_blocks v = getNumberBlocks N" using assms by (simp_all add: valid_def N_def)
  have len: "length s = N" using to_string_length [OF assms] by (simp add: s_def N_def)
  have chars: "set s \<subseteq> {CHR ''0'', CHR ''1''}" using to_string_chars [OF assms] by (simp add: s_def)
  obtain b where b: "build N junk (destroy unconstructed) = Inr b" "valid b" "m_size b = N"
      "m_bits b = map (fst junk) [0..<getNumberBlocks N]"
    using build_Inr [OF N] by blast
  have bb: "m_blocks b = getNumberBlocks N" "length (m_bits b) = m_blocks b"
    using b(2,3) by (simp_all add: valid_def)
  have cap: "N \<le> m_blocks b * 64" unfolding bb(1) getNumberBlocks_eq by linarith
  have junkbit: "bit_at b pos \<longleftrightarrow> bit (fst junk (pos div 64)) (pos mod 64)" if "pos < N" for pos
  proof -
    have "pos div 64 < getNumberBlocks N" using that cap bb(1) by (simp add: less_mult_imp_div_less)
    then show ?thesis by (simp add: bit_at_def b(4))
  qed
  have "\<exists>w. buildFromString_loop s (length s - 1) 0 b = Inr w \<and> m_mask w = m_mask b \<and> m_size w = m_size b \<and>
       m_blocks w = m_blocks b \<and> length (m_bits w) = m_blocks b \<and>
       (\<forall>pos<length s. bit_at w pos \<longleftrightarrow>
          bit_at b pos \<or> (0 \<le> length s - 1 - pos \<and> s ! (length s - 1 - pos) = CHR ''1''))"
    by (rule buildFromString_loop_bits [OF refl chars]) (simp_all add: b(3) len bb(2) cap)
  then obtain w where w: "buildFromString_loop s (length s - 1) 0 b = Inr w" "m_mask w = m_mask b"
      "m_size w = m_size b" "m_blocks w = m_blocks b" "length (m_bits w) = m_blocks b"
    and wn: "\<forall>pos<length s. bit_at w pos \<longleftrightarrow>
          bit_at b pos \<or> (0 \<le> length s - 1 - pos \<and> s ! (length s - 1 - pos) = CHR ''1'')"
    by (elim exE conjE)
  have vw: "valid w" by (rule valid_same_shape [OF b(2) w(2) w(3) w(4) w(5)])
  have built: "RuntimeBitset_string s junk = Inr w"
    using b(1) w(1) by (simp add: RuntimeBitset_string_def buildFromString_def len destroy_def)
  have bits: "test v pos = Inr (bit_at v pos) \<and>
      test w pos = Inr (bit_at v pos \<or> bit (fst junk (pos div 64)) (pos mod 64))"
    if pos: "pos < N" for pos
  proof -
    have "s ! (N - 1 - pos) = bit_char (bit_at v pos)"
      using to_string_nth [OF assms, of pos] pos by (simp add: s_def N_def)
    then have "s ! (length s - 1 - pos) = CHR ''1'' \<longleftrightarrow> bit_at v pos"
      by (simp add: len bit_char_def)
    then have "bit_at w pos \<longleftrightarrow> bit_at v pos \<or> bit (fst junk (pos div 64)) (pos mod 64)"
      using wn [rule_format, of pos] pos junkbit [OF pos] by (auto simp: len)
    moreover have "test w pos = Inr (bit_at w pos)" using pos by (simp add: test_bit_at w(3) b(3))
    moreover have "test v pos = Inr (bit_at v pos)" using pos by (simp add: test_bit_at N_def)
    ultimately show ?thesis by simp
  qed
  show ?thesis using built vw bits w(3) b(3) unfolding s_def N_def by auto
qed

text \<open>
  Claim C5 says that building a vector from \<open>to_string(v)\<close> gives \<open>v\<close> back bit for bit.
  \<open>buildFromString\<close> sets a bit for every \<open>'1'\<close> and never clears a block, so a bit whose
  character is \<open>'0'\<close> keeps what the allocator left in the fresh array: the vector built
  from \<open>to_string(v)\<close> has the size of \<open>v\<close>, and its bit at \<open>pos\<close> is the bit of \<open>v\<close> or
  the bit found in memory. It equals \<open>v\<close> only where that memory held zeros.
\<close>

theorem string_round_trip:
  assumes "valid v"
  shows "\<exists>w. RuntimeBitset_string (to_string v) junk = Inr w \<and> valid w \<and> m_size w = m_size v \<and>
           (\<forall>pos<m_size v. test v pos = Inr (bit_at v pos) \<and>
              test w pos = Inr (bit_at v pos \<or> bit (fst junk (pos div 64)) (pos mod 64)))"
  using assms by (rule string_round_trip_general)

lemma valid_vec1: "valid vec1"
  by (simp add: valid_def vec1_def getNumberBlocks_eq buildMask_def buildMask_loop.simps
      getLastMask_def ALL_BITS_ONE_def mask_eq_exp_minus_1)

theorem string_round_trip_witness:
  "valid vec1 \<and> to_string vec1 = ''0'' \<and>
   RuntimeBitset_string (to_string vec1) dirty = Inr vec1_dirty \<and>
   test vec1 0 = Inr False \<and> test vec1_dirty 0 = Inr True"
proof -
  have "RuntimeBitset_string ''0'' dirty = Inr vec1_dirty"
    by (simp add: RuntimeBitset_string_def buildFromString_def build_def unconstructed_def destroy_def
        buildBlocks_def buildMask_def buildMask_loop.simps getNumberBlocks_eq getLastMask_def
        ALL_BITS_ONE_def vec1_dirty_def dirty_def mask_eq_exp_minus_1 buildFromString_loop.simps)
  moreover have "test vec1 0 = Inr False" by (simp add: test_eq vec1_def)
  moreover have "test vec1_dirty 0 = Inr True" by (simp add: test_eq vec1_dirty_def)
  ultimately show ?thesis
    using valid_vec1 string_round_trip [OF valid_vec1, of dirty] by (simp add: to_string_vec1)
qed

text \<open>In zero-filled memory the round trip does hold.\<close>

lemma string_round_trip_zeroed:
  assumes "valid v"
  shows "\<exists>w. RuntimeBitset_string (to_string v) zeroed = Inr w \<and> valid w \<and> m_size w = m_size v \<and>
           (\<forall>pos<m_size v. test w pos = test v pos)"
proof -
  obtain w where "RuntimeBitset_string (to_string v) zeroed = Inr w" "valid w" "m_size w = m_size v"
    and "\<forall>pos<m_size v. test v pos = Inr (bit_at v pos) \<and>
              test w pos = Inr (bit_at v pos \<or> bit (fst zeroed (pos div 64)) (pos mod 64))"
    using string_round_trip_general [OF assms, of zeroed] by (elim exE conjE)
  then show ?thesis by (simp add: zeroed_def)
qed

section \<open>Shifting by at least the size, on the machine\<close>

lemma bitwiseLeft_loop_agree:
  "bitwiseLeft_loop t n v = Inr w \<Longrightarrow> bitwiseLeft_loop_on m t n v = w"
proof (induction n arbitrary: v)
  case 0
  then show ?case by simp
next
  case (Suc i)
  from Suc.prems have c: "64 - t < 64" "t < 64"
    by (auto simp: shr_def shl_def split: if_splits sum.splits)
  then show ?case
    using Suc.prems Suc.IH by (simp add: shr_def shl_def shr_on_def shl_on_def Let_def)
qed

lemma bitwiseRight_loop_agree:
  "bitwiseRight_loop t i v = Inr w \<Longrightarrow> bitwiseRight_loop_on m t i v = w"
proof (induction t i v rule: bitwiseRight_loop.induct)
  case (1 t i v)
  show ?case
  proof (cases "i < m_blocks v")
    case False
    then show ?thesis using "1.prems"
      by (subst bitwiseRight_loop_on.simps) (subst (asm) bitwiseRight_loop.simps, simp)
  next
    case True
    define x where "x = m_bits v ! i AND m_mask v ! i"
    have c: "64 - t < 64 \<and> t < 64"
      using "1.prems" True
      by (subst (asm) bitwiseRight_loop.simps) (auto simp: shr_def shl_def split: if_splits sum.splits)
    then have sl: "shl x (64 - t) = Inr (push_bit (64 - t) x)" and sr: "shr x t = Inr (drop_bit t x)"
      by (simp_all add: shl_def shr_def)
    define v1 where "v1 = v\<lparr>m_bits := (m_bits v)[i := drop_bit t x]\<rparr>"
    define v2 where "v2 = (if int i - 1 \<ge> 0
      then v1\<lparr>m_bits := (m_bits v1)[i - 1 := m_bits v1 ! (i - 1) OR push_bit (64 - t) x]\<rparr> else v1)"
    have step: "bitwiseRight_loop t i v = bitwiseRight_loop t (i + 1) v2"
      using True by (subst bitwiseRight_loop.simps)
        (simp add: sl [unfolded x_def] sr [unfolded x_def] x_def v1_def v2_def Let_def)
    have step_on: "bitwiseRight_loop_on m t i v = bitwiseRight_loop_on m t (i + 1) v2"
      using True c by (subst bitwiseRight_loop_on.simps)
        (simp add: shl_on_def shr_on_def x_def v1_def v2_def Let_def)
    have "bitwiseRight_loop_on m t (i + 1) v2 = w"
      using "1.IH" [OF True sl [unfolded x_def] sr [unfolded x_def], folded x_def, OF v1_def v2_def]
        "1.prems" unfolding step by simp
    then show ?thesis unfolding step_on .
  qed
qed

lemma bitwiseLeft_agree: "bitwiseLeft k v = Inr w \<Longrightarrow> bitwiseLeft_on m k v = w"
  by (auto simp: bitwiseLeft_def bitwiseLeft_on_def Let_def bitwiseLeft_loop_agree
      split: prod.splits)

lemma bitwiseRight_agree: "bitwiseRight k v = Inr w \<Longrightarrow> bitwiseRight_on m k v = w"
  by (auto simp: bitwiseRight_def bitwiseRight_on_def Let_def bitwiseRight_loop_agree
      split: prod.splits)

lemma bitwiseLeft_loop_on_zero:
  assumes "length (m_bits v) = m_blocks v" "\<forall>j<m_blocks v. m_bits v ! j = 0"
    "1 < m_blocks v \<longrightarrow> fst m 0 64 = 0"
  shows "n \<le> m_blocks v \<Longrightarrow> bitwiseLeft_loop_on m 0 n v = v"
proof (induction n)
  case 0
  show ?case by simp
next
  case (Suc i)
  have i: "i < m_blocks v" using Suc.prems by simp
  have zi: "m_bits v ! i = 0" using assms(2) i by simp
  have u1: "(m_bits v)[i := 0] = m_bits v" using zi list_update_id [of "m_bits v" i] by simp
  have u2: "(m_bits v)[i + 1 := m_bits v ! (i + 1) OR shr_on m 0 64] = m_bits v" if "i + 1 < m_blocks v"
  proof -
    have "shr_on m 0 64 = 0" using that assms(3) by (simp add: shr_on_def)
    then show ?thesis using list_update_id [of "m_bits v" "i + 1"] by simp
  qed
  have "bitwiseLeft_loop_on m 0 (Suc i) v = bitwiseLeft_loop_on m 0 i v"
    using u2 by (simp add: Let_def zi shl_on_def u1)
  then show ?case using Suc.IH i by simp
qed

lemma bitwiseRight_loop_on_zero:
  "length (m_bits v) = m_blocks v \<Longrightarrow> \<forall>j<m_blocks v. m_bits v ! j = 0 \<Longrightarrow>
   t = 0 \<Longrightarrow> 1 < m_blocks v \<longrightarrow> snd m 0 64 = 0 \<Longrightarrow> bitwiseRight_loop_on m t i v = v"
proof (induction m t i v rule: bitwiseRight_loop_on.induct)
  case (1 m t i v)
  show ?case
  proof (cases "i < m_blocks v")
    case False
    then show ?thesis by (subst bitwiseRight_loop_on.simps) simp
  next
    case True
    have zi: "m_bits v ! i = 0" using "1.prems"(2) True by simp
    have u1: "(m_bits v)[i := 0] = m_bits v" using zi list_update_id [of "m_bits v" i] by simp
    have u2: "(m_bits v)[i - 1 := m_bits v ! (i - 1) OR shl_on m 0 64] = m_bits v" if "0 < i"
    proof -
      have "shl_on m 0 64 = 0" using that True "1.prems"(4) by (simp add: shl_on_def)
      then show ?thesis using list_update_id [of "m_bits v" "i - 1"] by simp
    qed
    define v1 where "v1 = v\<lparr>m_bits := (m_bits v)[i := shr_on m (m_bits v ! i AND m_mask v ! i) t]\<rparr>"
    define v2 where "v2 = (if int i - 1 \<ge> 0
        then v1\<lparr>m_bits := (m_bits v1)[i - 1 := m_bits v1 ! (i - 1) OR
                  shl_on m (m_bits v ! i AND m_mask v ! i) (64 - t)]\<rparr> else v1)"
    have v1: "v1 = v" using "1.prems"(3) by (simp add: v1_def zi shr_on_def u1)
    have v2: "v2 = v" using u2 "1.prems"(3) by (cases "0 < i") (simp_all add: v2_def v1 zi)
    have step: "bitwiseRight_loop_on m t i v = bitwiseRight_loop_on m t (i + 1) v2"
      using True by (subst bitwiseRight_loop_on.simps) (simp add: v1_def v2_def Let_def)
    have "bitwiseRight_loop_on m t (i + 1) v2 = v2"
      using "1.IH" [OF True refl v1_def v2_def] "1.prems" unfolding v2 by simp
    then show ?thesis unfolding step v2 .
  qed
qed

lemma multiple_beyond_size: 
  fixes N k :: nat
  assumes "0 < N" "N \<le> k" "k mod 64 = 0"
  shows "(N + 63) div 64 \<le> k div 64" "0 < k div 64"
proof -
  have "k = (k div 64) * 64" using assms(3) by (metis add.right_neutral div_mult_mod_eq)
  then show "(N + 63) div 64 \<le> k div 64" "0 < k div 64" using assms(1,2) by linarith+
qed

lemma bitwiseLeft_on_multiple:
  assumes "valid v" "m_size v \<le> k" "k mod 64 = 0" "1 < m_blocks v \<longrightarrow> fst m 0 64 = 0"
  shows "m_mask (bitwiseLeft_on m k v) = m_mask v \<and> m_size (bitwiseLeft_on m k v) = m_size v \<and>
         m_blocks (bitwiseLeft_on m k v) = m_blocks v \<and>
         length (m_bits (bitwiseLeft_on m k v)) = m_blocks v \<and>
         (\<forall>j<m_blocks v. m_bits (bitwiseLeft_on m k v) ! j = 0)"
proof -
  define q where "q = k div 64"
  define v1 where "v1 = shiftBlocksLeft q v"
  have s: "0 < m_size v" and nb: "m_blocks v = (m_size v + 63) div 64"
    and len: "length (m_bits v) = m_blocks v"
    using assms(1) by (simp_all add: valid_def getNumberBlocks_eq)
  have q: "m_blocks v \<le> q" "0 < q"
    using multiple_beyond_size [OF s assms(2,3)] by (simp_all add: nb q_def)
  have f1: "m_blocks v1 = m_blocks v" "m_mask v1 = m_mask v" "m_size v1 = m_size v"
    "length (m_bits v1) = m_blocks v"
    using len by (simp_all add: v1_def shiftBlocksLeft_def shiftBlocksLeft_loop_fields)
  have z: "\<forall>j<m_blocks v1. m_bits v1 ! j = 0"
    using shiftBlocksLeft_loop_nth [OF q(2) len order_refl] q(1)
    by (simp add: v1_def shiftBlocksLeft_def f1 [unfolded v1_def shiftBlocksLeft_def])
  have "bitwiseLeft_loop_on m 0 (m_blocks v1) v1 = v1"
    by (rule bitwiseLeft_loop_on_zero) (use f1 z assms(4) in simp_all)
  moreover have "bitwiseLeft_on m k v = bitwiseLeft_loop_on m 0 (m_blocks v1) v1"
    using q(2) assms(3) by (simp add: bitwiseLeft_on_def blockWise_loop_eq Let_def q_def v1_def)
  ultimately show ?thesis using f1 z by simp
qed

lemma bitwiseRight_on_multiple:
  assumes "valid v" "m_size v \<le> k" "k mod 64 = 0" "1 < m_blocks v \<longrightarrow> snd m 0 64 = 0"
  shows "m_mask (bitwiseRight_on m k v) = m_mask v \<and> m_size (bitwiseRight_on m k v) = m_size v \<and>
         m_blocks (bitwiseRight_on m k v) = m_blocks v \<and>
         length (m_bits (bitwiseRight_on m k v)) = m_blocks v \<and>
         (\<forall>j<m_blocks v. m_bits (bitwiseRight_on m k v) ! j = 0)"
proof -
  define q where "q = k div 64"
  define v1 where "v1 = shiftBlocksRight q v"
  have s: "0 < m_size v" and nb: "m_blocks v = (m_size v + 63) div 64"
    and len: "length (m_bits v) = m_blocks v"
    using assms(1) by (simp_all add: valid_def getNumberBlocks_eq)
  have q: "m_blocks v \<le> q" "0 < q"
    using multiple_beyond_size [OF s assms(2,3)] by (simp_all add: nb q_def)
  have f1: "m_blocks v1 = m_blocks v" "m_mask v1 = m_mask v" "m_size v1 = m_size v"
    "length (m_bits v1) = m_blocks v"
    using len by (simp_all add: v1_def shiftBlocksRight_def shiftBlocksRight_loop_fields)
  have z: "\<forall>j<m_blocks v1. m_bits v1 ! j = 0"
    using shiftBlocksRight_loop_nth [OF q(2) len, of _ 0] q(1)
    by (simp add: v1_def shiftBlocksRight_def f1 [unfolded v1_def shiftBlocksRight_def])
  have "bitwiseRight_loop_on m 0 0 v1 = v1"
    by (rule bitwiseRight_loop_on_zero) (use f1 z assms(4) in simp_all)
  moreover have "bitwiseRight_on m k v = bitwiseRight_loop_on m 0 0 v1"
    using q(2) assms(3) by (simp add: bitwiseRight_on_def blockWise_loop_eq Let_def q_def v1_def)
  ultimately show ?thesis using f1 z by simp
qed

lemma none_of_zero_blocks: "\<forall>j<m_blocks w. m_bits w ! j = 0 \<Longrightarrow> none w"
  by (simp add: none_def none_loop_iff)

lemma none_bit_at:
  assumes "valid w" "none w" "pos < m_size w"
  shows "\<not> bit_at w pos"
proof -
  define j where "j = pos div 64"
  define n where "n = m_blocks w - 1"
  have s: "0 < m_size w" and nb: "m_blocks w = getNumberBlocks (m_size w)"
    using assms(1) by (simp_all add: valid_def)
  have nbn: "m_blocks w = Suc n" using lastMask_range(4) [OF s] nb by (simp add: n_def)
  have cap: "n * 64 + (m_size w - n * 64) = m_size w" "m_size w - n * 64 \<le> 64"
    using lastMask_range(2,3) [OF s] nb by (simp_all add: n_def)
  have j: "j < m_blocks w" using assms(3) cap nbn unfolding j_def by linarith
  have inside: "pos mod 64 < (if j = m_blocks w - 1 then m_size w - (m_blocks w - 1) * 64 else 64)"
  proof (cases "j = n")
    case True
    have "pos = j * 64 + pos mod 64" by (simp add: j_def)
    then have "pos mod 64 < m_size w - n * 64" using assms(3) True by linarith
    then show ?thesis using True by (simp add: n_def)
  next
    case False
    then show ?thesis by (simp add: n_def)
  qed
  have "m_bits w ! j AND m_mask w ! j = 0"
    using assms(2) j by (simp add: none_def none_loop_iff)
  then have "\<not> bit (m_bits w ! j AND m_mask w ! j) (pos mod 64)" by simp
  moreover have "bit (m_mask w ! j) (pos mod 64)"
    unfolding valid_mask_width [OF assms(1) j] using inside by (simp add: bit_simps)
  ultimately show ?thesis by (simp add: bit_at_def j_def bit_and_iff)
qed

lemma none_test:
  "valid w \<Longrightarrow> none w \<Longrightarrow> pos < m_size w \<Longrightarrow> test w pos = Inr False"
  by (simp add: test_bit_at none_bit_at)

lemma operator_on_valid:
  "valid v \<Longrightarrow> operator_shl_on m v k junk = Inr (bitwiseLeft_on m k v)"
  "valid v \<Longrightarrow> operator_shr_on m v k junk = Inr (bitwiseRight_on m k v)"
  by (simp_all add: operator_shl_on_def operator_shr_on_def copy_construct_valid)

lemma shift_vec8_by_64:
  "operator_shl_on stuck_shifter vec8 64 zeroed = Inr (vec8\<lparr>m_bits := [0]\<rparr>)"
  "operator_shr_on stuck_shifter vec8 64 zeroed = Inr (vec8\<lparr>m_bits := [0]\<rparr>)"
  unfolding operator_on_valid [OF valid_vec8]
  by (simp_all add: bitwiseLeft_on_def bitwiseRight_on_def blockWise_loop_eq shiftBlocksLeft_def
      shiftBlocksRight_def shiftBlocksRight_loop.simps bitwiseRight_loop_on.simps
      shr_on_def shl_on_def stuck_shifter_def vec8_def Let_def)

lemma shift_vec70_one_by_128:
  "operator_shl_on count_mod_64 vec70_one 128 zeroed = Inr vec70"
  "operator_shr_on count_mod_64 vec70_one 128 zeroed = Inr vec70"
  unfolding operator_on_valid [OF valid_vec70_one]
  by (simp_all add: bitwiseLeft_on_def bitwiseRight_on_def blockWise_loop_eq shiftBlocksLeft_def
      shiftBlocksRight_def shiftBlocksRight_loop.simps bitwiseRight_loop_on.simps
      shr_on_def shl_on_def count_mod_64_def vec70_one_def vec70_def Let_def numeral_2_eq_2)

text \<open>
  Claim C3. For every vector \<open>v\<close> satisfying the class invariant and every \<open>k \<ge> size()\<close>,
  \<open>v << k\<close> and \<open>v >> k\<close> return a vector of the same size in which no significant bit is
  set: \<open>none()\<close> holds and \<open>test(pos)\<close> is false at every position. When \<open>k\<close> is a multiple
  of 64, every block has been cleared by \<open>shiftBlocksLeft\<close> or \<open>shiftBlocksRight\<close> before
  the \<open>for\<close> loop runs; the loop then stores \<open>0 << 0\<close> or \<open>0 >> 0\<close>, and its shift of 0 by
  64 only produces the carry. On a single block the carry is dropped, whatever it is; on
  more than one block it is OR-ed into the neighbour, and the statement asks of the
  shifter that shifting 0 by 64 gives 0.
\<close>

theorem shift_by_size_all_zero:
  assumes "valid v" "m_size v \<le> k"
    and "k mod 64 = 0 \<and> 1 < m_blocks v \<longrightarrow> fst m 0 64 = 0 \<and> snd m 0 64 = 0"
  shows "(\<exists>w. operator_shl_on m v k junk = Inr w \<and> valid w \<and> m_size w = m_size v \<and> none w \<and>
              (\<forall>pos<m_size v. test w pos = Inr False)) \<and>
         (\<exists>w. operator_shr_on m v k junk = Inr w \<and> valid w \<and> m_size w = m_size v \<and> none w \<and>
              (\<forall>pos<m_size v. test w pos = Inr False))"
proof -
  have l: "valid (bitwiseLeft_on m k v) \<and> m_size (bitwiseLeft_on m k v) = m_size v \<and>
           none (bitwiseLeft_on m k v)"
  proof (cases "k mod 64 = 0")
    case True
    have c: "1 < m_blocks v \<longrightarrow> fst m 0 64 = 0" using assms(3) True by simp
    note f = bitwiseLeft_on_multiple [OF assms(1,2) True c]
    have "valid (bitwiseLeft_on m k v)"
      by (rule valid_same_shape [OF assms(1)]) (simp_all add: f)
    moreover have "none (bitwiseLeft_on m k v)" by (rule none_of_zero_blocks) (simp add: f)
    ultimately show ?thesis by (simp add: f)
  next
    case False
    obtain w where w: "bitwiseLeft k v = Inr w" "valid w" "m_size w = m_size v" "none w"
      using bitwiseLeft_beyond_size [OF assms(1,2) False] by (elim exE conjE)
    show ?thesis using w(2,3,4) by (simp add: bitwiseLeft_agree [OF w(1)])
  qed
  have r: "valid (bitwiseRight_on m k v) \<and> m_size (bitwiseRight_on m k v) = m_size v \<and>
           none (bitwiseRight_on m k v)"
  proof (cases "k mod 64 = 0")
    case True
    have c: "1 < m_blocks v \<longrightarrow> snd m 0 64 = 0" using assms(3) True by simp
    note f = bitwiseRight_on_multiple [OF assms(1,2) True c]
    have "valid (bitwiseRight_on m k v)"
      by (rule valid_same_shape [OF assms(1)]) (simp_all add: f)
    moreover have "none (bitwiseRight_on m k v)" by (rule none_of_zero_blocks) (simp add: f)
    ultimately show ?thesis by (simp add: f)
  next
    case False
    obtain w where w: "bitwiseRight k v = Inr w" "valid w" "m_size w = m_size v" "none w"
      using bitwiseRight_beyond_size [OF assms(1,2) False] by (elim exE conjE)
    show ?thesis using w(2,3,4) by (simp add: bitwiseRight_agree [OF w(1)])
  qed
  show ?thesis
    using l r
    by (simp add: operator_shl_on_def operator_shr_on_def copy_construct_valid [OF assms(1)]
        none_test)
qed

theorem shift_by_size_all_zero_witness:
  "valid vec70_one \<and> m_size vec70_one \<le> 128 \<and> (128::nat) mod 64 = 0 \<and> 1 < m_blocks vec70_one \<and>
   fst count_mod_64 0 64 = 0 \<and> snd count_mod_64 0 64 = 0 \<and>
   operator_shl_on count_mod_64 vec70_one 128 zeroed = Inr vec70 \<and>
   operator_shr_on count_mod_64 vec70_one 128 zeroed = Inr vec70 \<and>
   valid vec70 \<and> m_size vec70 = m_size vec70_one \<and> none vec70 \<and>
   test vec70 0 = Inr False \<and> test vec70 64 = Inr False \<and> test vec70 69 = Inr False \<and>
   valid vec8 \<and> m_size vec8 \<le> 64 \<and> (64::nat) mod 64 = 0 \<and> \<not> 1 < m_blocks vec8 \<and>
   operator_shl_on stuck_shifter vec8 64 zeroed = Inr (vec8\<lparr>m_bits := [0]\<rparr>) \<and>
   operator_shr_on stuck_shifter vec8 64 zeroed = Inr (vec8\<lparr>m_bits := [0]\<rparr>) \<and>
   none (vec8\<lparr>m_bits := [0]\<rparr>) \<and>
   test (vec8\<lparr>m_bits := [0]\<rparr>) 2 = Inr False \<and> test (vec8\<lparr>m_bits := [0]\<rparr>) 7 = Inr False \<and>
   m_size vec8 \<le> 9 \<and> (9::nat) mod 64 \<noteq> 0 \<and>
   (\<exists>w. operator_shl_on stuck_shifter vec8 9 zeroed = Inr w \<and> valid w \<and>
        m_size w = m_size vec8 \<and> none w \<and> test w 2 = Inr False \<and> test w 7 = Inr False) \<and>
   (\<exists>w. operator_shr_on stuck_shifter vec8 9 zeroed = Inr w \<and> valid w \<and>
        m_size w = m_size vec8 \<and> none w \<and> test w 2 = Inr False \<and> test w 7 = Inr False)"
proof -
  have s: "m_size vec70_one \<le> 128" and t: "m_size vec8 \<le> 64" and u: "m_size vec8 \<le> 9"
    by (simp_all add: vec70_one_def vec8_def)
  have sz: "m_size vec70_one = 70" "m_size vec8 = 8" "1 < m_blocks vec70_one" "\<not> 1 < m_blocks vec8"
    by (simp_all add: vec70_one_def vec8_def)
  have cm: "fst count_mod_64 0 64 = 0 \<and> snd count_mod_64 0 64 = 0"
    by (simp add: count_mod_64_def)
  have h: "(128::nat) mod 64 = 0 \<and> 1 < m_blocks vec70_one \<longrightarrow>
      fst count_mod_64 0 64 = 0 \<and> snd count_mod_64 0 64 = 0"
    using cm by simp
  have g: "(64::nat) mod 64 = 0 \<and> 1 < m_blocks vec8 \<longrightarrow>
      fst stuck_shifter 0 64 = 0 \<and> snd stuck_shifter 0 64 = 0"
    using sz(4) by simp
  have f: "(9::nat) mod 64 = 0 \<and> 1 < m_blocks vec8 \<longrightarrow>
      fst stuck_shifter 0 64 = 0 \<and> snd stuck_shifter 0 64 = 0"
    by simp
  have a: "valid vec70 \<and> m_size vec70 = m_size vec70_one \<and> none vec70 \<and>
      test vec70 0 = Inr False \<and> test vec70 64 = Inr False \<and> test vec70 69 = Inr False"
    using shift_by_size_all_zero [OF valid_vec70_one s h, of zeroed]
    by (simp add: shift_vec70_one_by_128 sz)
  have b: "none (vec8\<lparr>m_bits := [0]\<rparr>) \<and>
      test (vec8\<lparr>m_bits := [0]\<rparr>) 2 = Inr False \<and> test (vec8\<lparr>m_bits := [0]\<rparr>) 7 = Inr False"
    using shift_by_size_all_zero [OF valid_vec8 t g, of zeroed]
    by (simp add: shift_vec8_by_64 sz)
  have c: "(\<exists>w. operator_shl_on stuck_shifter vec8 9 zeroed = Inr w \<and> valid w \<and>
        m_size w = m_size vec8 \<and> none w \<and> test w 2 = Inr False \<and> test w 7 = Inr False) \<and>
   (\<exists>w. operator_shr_on stuck_shifter vec8 9 zeroed = Inr w \<and> valid w \<and>
        m_size w = m_size vec8 \<and> none w \<and> test w 2 = Inr False \<and> test w 7 = Inr False)"
  proof -
    have p: "(2::nat) < 8" "(7::nat) < 8" by simp_all
    show ?thesis
      using shift_by_size_all_zero [OF valid_vec8 u f, of zeroed] p unfolding sz(2) by blast
  qed
  have m: "(128::nat) mod 64 = 0" "(64::nat) mod 64 = 0" "(9::nat) mod 64 \<noteq> 0" by simp_all
  show ?thesis
    using valid_vec70_one valid_vec8 s t u sz(3,4) cm a b c m shift_vec70_one_by_128 shift_vec8_by_64
    by blast
qed

text \<open>The condition on the shifter is used only for more than one block, and there it
  is needed: a shifter that delivered a non-zero word for \<open>0 >> 64\<close> would leave that
  word in block 1.\<close>

lemma stuck_shifter_two_blocks:
  "operator_shl_on stuck_shifter vec70_one 128 zeroed = Inr (vec70\<lparr>m_bits := [0, 0xDEAD]\<rparr>)"
  unfolding operator_on_valid [OF valid_vec70_one]
  by (simp add: bitwiseLeft_on_def blockWise_loop_eq shiftBlocksLeft_def
      shr_on_def shl_on_def stuck_shifter_def vec70_one_def vec70_def Let_def numeral_2_eq_2)

end
